theory Spec2Isabelle
  imports Main "HOL-Library.AList" "HOL-Library.Sublist"
begin

section \<open>Python values\<close>

text \<open>
  A Python \<open>str\<close> is a \<open>string\<close>, one \<open>char\<close> per code point, which covers the code
  points below 256; the two glyphs of the source beyond them (the white circle of the
  streaming indicator, the warning sign of the user warnings) are replaced by ASCII
  stand-ins of the same length.
  Identifiers are Discord snowflakes, natural numbers. Times are integers in
  microseconds, the resolution of \<open>datetime\<close>.
\<close>

type_synonym snowflake = nat

fun join :: "string \<Rightarrow> string list \<Rightarrow> string" where
  "join sep [] = []"
| "join sep [x] = x"
| "join sep (x # y # ys) = x @ sep @ join sep (y # ys)"

fun str_in :: "string \<Rightarrow> string \<Rightarrow> bool" where
  "str_in sub [] = (sub = [])"
| "str_in sub (c # cs) = (prefix sub (c # cs) \<or> str_in sub cs)"

definition startswith :: "string \<Rightarrow> string \<Rightarrow> bool" where
  "startswith s p = prefix p s"

text \<open>The white space of \<open>str.split()\<close> and \<open>str.strip()\<close> among these code points.\<close>

definition is_space :: "char \<Rightarrow> bool" where
  "is_space c = (c \<in> set [CHR '' '', CHR 0x09, CHR 0x0A, CHR 0x0B, CHR 0x0C, CHR 0x0D,
                            CHR 0x1C, CHR 0x1D, CHR 0x1E, CHR 0x1F, CHR 0x85, CHR 0xA0])"

fun split_ws :: "string \<Rightarrow> string \<Rightarrow> string list" where
  "split_ws w [] = (if w = [] then [] else [w])"
| "split_ws w (c # cs) =
     (if is_space c then (if w = [] then split_ws [] cs else w # split_ws [] cs)
      else split_ws (w @ [c]) cs)"

definition split :: "string \<Rightarrow> string list" where
  "split s = split_ws [] s"

text \<open>
  \<open>str.lower()\<close>: the capital letters among these code points are \<open>A\<close> to \<open>Z\<close> and
  \<open>0xC0\<close> to \<open>0xDE\<close> without the multiplication sign \<open>0xD7\<close>; each has its small
  letter 32 places further.
\<close>

definition lower_char :: "char \<Rightarrow> char" where
  "lower_char c =
     (if ((65::nat) \<le> of_char c \<and> of_char c \<le> (90::nat))
         \<or> ((192::nat) \<le> of_char c \<and> of_char c \<le> (222::nat) \<and> of_char c \<noteq> (215::nat))
      then char_of (of_char c + (32::nat)) else c)"

definition lower :: "string \<Rightarrow> string" where
  "lower s = map lower_char s"

fun str_nat :: "nat \<Rightarrow> string" where
  "str_nat n =
     (if n < 10 then [''0123456789'' ! n] else str_nat (n div 10) @ [''0123456789'' ! (n mod 10)])"

declare str_nat.simps [simp del]

definition digit_of :: "char \<Rightarrow> nat option" where
  "digit_of c =
     (if (48::nat) \<le> of_char c \<and> of_char c \<le> (57::nat) then Some (of_char c - 48) else None)"

text \<open>
  \<open>int(s)\<close> on a token without white space: an optional sign, then decimal digits,
  where single underscores may stand between digits; \<open>None\<close> is the \<open>ValueError\<close>.
  In \<open>digits_value\<close> the flag says whether the character before was a digit.
\<close>

fun digits_value :: "nat \<Rightarrow> bool \<Rightarrow> string \<Rightarrow> nat option" where
  "digits_value acc after_digit [] = (if after_digit then Some acc else None)"
| "digits_value acc after_digit (c # cs) =
     (if c = CHR ''_'' then (if after_digit then digits_value acc False cs else None)
      else (case digit_of c of
              None \<Rightarrow> None
            | Some d \<Rightarrow> digits_value (10 * acc + d) True cs))"

definition py_int :: "string \<Rightarrow> int option" where
  "py_int s =
     (case s of
        [] \<Rightarrow> None
      | c # cs \<Rightarrow>
          if c = CHR ''-'' then map_option (\<lambda>n. - int n) (digits_value 0 False cs)
          else if c = CHR ''+'' then map_option int (digits_value 0 False cs)
          else map_option int (digits_value 0 False s))"

section \<open>Messages, turns and nodes\<close>

record attachment =
  att_filename :: string
  att_content_type :: "string option"
  att_size :: nat
  att_url :: string

text \<open>
  A Discord message as \<open>on_message\<close> reads it. \<open>msg_embeds\<close> holds the description of each
  embed (\<open>None\<close> when the embed has none). \<open>msg_reference\<close> is \<open>None\<close> when the message is
  not a reply; otherwise it holds what
  \<open>reference.cached_message or await channel.fetch_message(reference.message_id)\<close>
  yields: \<open>Some m\<close>, or \<open>None\<close> when the fetch raises \<open>discord.NotFound\<close> or
  \<open>discord.HTTPException\<close>. A reply refers to a message sent before it, so the chain of
  references behind a message is finite.
\<close>

datatype message = Message
  (msg_id: snowflake)
  (msg_author: snowflake)
  (msg_content: string)
  (msg_attachments: "attachment list")
  (msg_embeds: "string option list")
  (msg_created_at: int)
  (msg_reference: "message option option")

datatype part = TextPart string | ImageUrl string

datatype content = Text string | Parts "part list"

record turn =
  content :: content
  role :: string
  name :: "string option"

fun text_of :: "content \<Rightarrow> string" where
  "text_of (Text t) = t"
| "text_of (Parts ps) = concat [t. TextPart t \<leftarrow> ps]"

fun truthy :: "content \<Rightarrow> bool" where
  "truthy (Text t) = (t \<noteq> [])"
| "truthy (Parts ps) = (ps \<noteq> [])"

text \<open>\<open>data\<close> is \<open>None\<close> for the empty dict of a fresh node; \<open>lock\<close> is \<open>True\<close> while held.\<close>

record MsgNode =
  data :: "turn option"
  next_msg :: "snowflake option"
  too_much_text :: bool
  too_many_images :: bool
  has_bad_attachments :: bool
  fetch_next_failed :: bool
  lock :: bool

definition new_MsgNode :: MsgNode where
  "new_MsgNode = \<lparr>data = None, next_msg = None, too_much_text = False, too_many_images = False,
     has_bad_attachments = False, fetch_next_failed = False, lock = False\<rparr>"

text \<open>The dict \<open>msg_nodes\<close>, in insertion order, with the operations the code uses on it.\<close>

type_synonym nodes = "(snowflake \<times> MsgNode) list"

definition setdefault :: "snowflake \<Rightarrow> MsgNode \<Rightarrow> nodes \<Rightarrow> MsgNode \<times> nodes" where
  "setdefault k d m = (case map_of m k of Some v \<Rightarrow> (v, m) | None \<Rightarrow> (d, m @ [(k, d)]))"

section \<open>Plugins, the outside world and the bot's state\<close>

datatype 'a result = Raises string | Returns 'a

type_synonym pydict = "(string \<times> string option) list"

record plugin_hooks =
  on_bot_ready :: "(string \<times> unit result) list"
  on_message_received :: "(string \<times> (message \<Rightarrow> bool option result)) list"
  process_attachment ::
    "(string \<times> (attachment \<Rightarrow> bool \<Rightarrow> message option \<Rightarrow> pydict option result)) list"
  before_llm_call :: "(string \<times> (turn list \<Rightarrow> message \<Rightarrow> turn list option result)) list"
  after_llm_response :: "(string \<times> (message \<Rightarrow> string \<Rightarrow> unit result)) list"
  custom_commands :: "(string \<times> (message \<Rightarrow> string \<Rightarrow> unit result)) list"

text \<open>
  One chunk of the model's stream, with what the clock and the pending edit task show
  while the chunk is handled; a stream is its chunks and how it ends.
\<close>

record chunk =
  delta_content :: "string option"
  finish_reason :: "string option"
  clock :: int
  edit_done :: bool

datatype ending = Exhausted | StreamError string

type_synonym stream = "chunk list \<times> ending"

text \<open>An identifier in a list of \<open>config.json\<close>: a JSON number or a JSON string.\<close>

datatype config_id = Number nat | String string

text \<open>
  The configuration and the collaborators of one run. A plugin callable is its
  \<open>__name__\<close> and its observable result on given arguments; \<open>http_base64\<close> and
  \<open>http_text\<close> stand for \<open>requests.get(url)\<close> read as base64 and as text.
  \<open>notice_delivered\<close> says whether the send of the failure notice, which stands in an
  \<open>except\<close> block outside any \<open>try\<close>, goes through; every other send is taken to
  succeed.
\<close>

record env =
  bot_id :: snowflake
  system_prompt :: string
  today :: string
  MAX_TEXT :: nat
  MAX_IMAGES :: nat
  MAX_MESSAGES :: nat
  USE_PLAIN_RESPONSES :: bool
  LLM_ACCEPTS_IMAGES :: bool
  LLM_ACCEPTS_NAMES :: bool
  ALLOWED_CHANNEL_IDS :: "config_id list"
  ALLOWED_ROLE_IDS :: "config_id list"
  OTHER_BOT_IDS :: "string list"
  hooks :: plugin_hooks
  loaded_plugins :: "(string \<times> string \<times> string) list"
  http_base64 :: "string \<Rightarrow> string"
  http_text :: "string \<Rightarrow> string"
  llm :: "turn list \<Rightarrow> stream"
  notice_delivered :: bool

text \<open>What the event carries besides the message itself.\<close>

record arrival =
  bot_mentioned :: bool
  name_trigger :: bool
  mom_trigger :: bool
  channel_id :: snowflake
  channel_type_allowed :: bool
  author_roles :: "snowflake list option"
  history :: "message list"

datatype warning = MaxText nat | MaxImages nat | CantSeeImages | UnsupportedAttachments

datatype color = COMPLETE | INCOMPLETE

record embed =
  description :: string
  color :: color
  embed_fields :: "warning set"

datatype notice =
    GenerationFailed | CommandFailed | PluginList "(string \<times> string \<times> string) list"
  | ConverseStarting int | ConverseRange | ConverseInvalid | ConverseUsage | ConverseBroke

datatype payload = Plain string | Rich embed | Fixed notice

datatype outbound = Send snowflake payload | Edit snowflake payload

record converse =
  active :: bool
  exchanges_left :: nat
  conv_channel_id :: "snowflake option"

text \<open>
  The globals of the module (\<open>msg_nodes\<close>, \<open>last_task_time\<close>, \<open>MESSAGE_COUNT\<close>,
  \<open>converse_state\<close>) and what the run does to the outside: the messages sent and edited
  (\<open>next_id\<close> is the identifier Discord gives the next message), the lines logged at
  error level, the plugin callables invoked and the requests made to the model.
\<close>

record world =
  msg_nodes :: nodes
  last_task_time :: "int option"
  MESSAGE_COUNT :: nat
  converse_state :: converse
  next_id :: snowflake
  outbox :: "outbound list"
  logged :: "string list"
  invoked :: "(string \<times> string) list"
  requests :: "turn list list"

definition send :: "payload \<Rightarrow> world \<Rightarrow> snowflake \<times> world" where
  "send p s = (next_id s, s\<lparr>outbox := outbox s @ [Send (next_id s) p], next_id := next_id s + 1\<rparr>)"

definition log_error :: "string \<Rightarrow> world \<Rightarrow> world" where
  "log_error line s = s\<lparr>logged := logged s @ [line]\<rparr>"

definition call :: "string \<Rightarrow> string \<Rightarrow> world \<Rightarrow> world" where
  "call point hook s = s\<lparr>invoked := invoked s @ [(point, hook)]\<rparr>"

section \<open>Content Normalizer\<close>

definition good_attachments :: "string \<Rightarrow> attachment list \<Rightarrow> attachment list" where
  "good_attachments ty atts =
     filter (\<lambda>att. case att_content_type att of
                      None \<Rightarrow> False
                    | Some ct \<Rightarrow> ct \<noteq> [] \<and> str_in ty ct \<and> att_size att \<le> 10000000) atts"

record draft =
  text_parts :: "string list"
  image_parts :: "part list"

text \<open>How an f-string renders a value that may be \<open>None\<close>.\<close>

definition py_str :: "string option \<Rightarrow> string" where
  "py_str v = (case v of None \<Rightarrow> ''None'' | Some t \<Rightarrow> t)"

definition image_url :: "attachment \<Rightarrow> string \<Rightarrow> part" where
  "image_url att b64 = ImageUrl (''data:'' @ py_str (att_content_type att) @ '';base64,'' @ b64)"

text \<open>The body of \<open>if result:\<close>, for a hook result that is a non-empty dict.\<close>

definition claimed :: "bool \<Rightarrow> attachment \<Rightarrow> pydict \<Rightarrow> draft \<Rightarrow> draft" where
  "claimed accepts att res d =
     (let d1 = (case map_of res ''caption'' of
                  Some (Some c) \<Rightarrow>
                    if c \<noteq> [] then d\<lparr>text_parts := text_parts d @ [''[Image description: '' @ c @ '']'']\<rparr>
                    else d
                | _ \<Rightarrow> d)
      in case map_of res ''image_data'' of
           Some v \<Rightarrow>
             if accepts then d1\<lparr>image_parts := image_parts d1 @ [image_url att (py_str v)]\<rparr> else d1
         | None \<Rightarrow> d1)"

definition embed_raw :: "env \<Rightarrow> attachment \<Rightarrow> draft \<Rightarrow> draft" where
  "embed_raw E att d = d\<lparr>image_parts := image_parts d @ [image_url att (http_base64 E (att_url att))]\<rparr>"

text \<open>
  The loop \<open>for hook in plugin_hooks["process_attachment"]\<close> of the reply path and of the
  current message (hooks called with \<open>message=\<close>); the first component is \<open>processed\<close>.
\<close>

fun offer ::
  "env \<Rightarrow> attachment \<Rightarrow> message \<Rightarrow>
   (string \<times> (attachment \<Rightarrow> bool \<Rightarrow> message option \<Rightarrow> pydict option result)) list \<Rightarrow>
   draft \<times> world \<Rightarrow> bool \<times> draft \<times> world" where
  "offer E att m [] (d, s) = (False, d, s)"
| "offer E att m (hook # rest) (d, s) =
     (case snd hook att (LLM_ACCEPTS_IMAGES E) (Some m) of
        Raises e \<Rightarrow>
          offer E att m rest
            (d, log_error (''Error in process_attachment hook: '' @ e)
                  (call ''process_attachment'' (fst hook) s))
      | Returns r \<Rightarrow>
          (case r of
             None \<Rightarrow> offer E att m rest (d, call ''process_attachment'' (fst hook) s)
           | Some res \<Rightarrow>
               if res = [] then offer E att m rest (d, call ''process_attachment'' (fst hook) s)
               else (True, claimed (LLM_ACCEPTS_IMAGES E) att res d,
                     call ''process_attachment'' (fst hook) s)))"

definition image_attachment :: "env \<Rightarrow> message \<Rightarrow> attachment \<Rightarrow> draft \<times> world \<Rightarrow> draft \<times> world" where
  "image_attachment E m att ds =
     (case offer E att m (process_attachment (hooks E)) ds of
        (processed, d, s) \<Rightarrow>
          (if \<not> processed \<and> LLM_ACCEPTS_IMAGES E then embed_raw E att d else d, s))"

text \<open>
  The same loop in the channel-history path: the hooks are called without \<open>message\<close>, and
  the default encoding \<open>if not processed and LLM_ACCEPTS_IMAGES\<close> is indented into the
  loop body, so it runs after every hook that did not claim the attachment.
\<close>

fun offer_prev ::
  "env \<Rightarrow> attachment \<Rightarrow>
   (string \<times> (attachment \<Rightarrow> bool \<Rightarrow> message option \<Rightarrow> pydict option result)) list \<Rightarrow>
   draft \<times> world \<Rightarrow> draft \<times> world" where
  "offer_prev E att [] (d, s) = (d, s)"
| "offer_prev E att (hook # rest) (d, s) =
     (case snd hook att (LLM_ACCEPTS_IMAGES E) None of
        Raises e \<Rightarrow>
          offer_prev E att rest
            (if LLM_ACCEPTS_IMAGES E then embed_raw E att d else d,
             log_error (''Error in process_attachment hook: '' @ e)
               (call ''process_attachment'' (fst hook) s))
      | Returns r \<Rightarrow>
          (case r of
             None \<Rightarrow>
               offer_prev E att rest
                 (if LLM_ACCEPTS_IMAGES E then embed_raw E att d else d,
                  call ''process_attachment'' (fst hook) s)
           | Some res \<Rightarrow>
               if res = [] then
                 offer_prev E att rest
                   (if LLM_ACCEPTS_IMAGES E then embed_raw E att d else d,
                    call ''process_attachment'' (fst hook) s)
               else (claimed (LLM_ACCEPTS_IMAGES E) att res d,
                     call ''process_attachment'' (fst hook) s)))"

text \<open>
  The text of a message: the parts gathered so far, the embed descriptions and the text
  attachments, joined by newlines and cut at \<open>MAX_TEXT\<close>; the flag says whether it was cut.
\<close>

definition full_text :: "env \<Rightarrow> message \<Rightarrow> draft \<Rightarrow> string" where
  "full_text E m d =
     join [CHR 0x0A]
       (text_parts d
        @ [t. Some t \<leftarrow> msg_embeds m, t \<noteq> []]
        @ [http_text E (att_url att).
             att \<leftarrow> good_attachments ''text'' (msg_attachments m), att_size att \<le> 10000000])"

definition assemble :: "env \<Rightarrow> message \<Rightarrow> draft \<Rightarrow> string \<times> bool" where
  "assemble E m d =
     (let text = full_text E m d
      in if length text > MAX_TEXT E then (take (MAX_TEXT E) text, True) else (text, False))"

definition make_content :: "string \<Rightarrow> part list \<Rightarrow> content" where
  "make_content text imgs =
     (if imgs \<noteq> [] then Parts ((if text \<noteq> [] then [TextPart text] else []) @ imgs) else Text text)"

definition start_draft :: "string \<Rightarrow> draft" where
  "start_draft body = \<lparr>text_parts = (if body \<noteq> [] then [body] else []), image_parts = []\<rparr>"

text \<open>The loop over the image attachments, from the message body on.\<close>

definition drafted :: "env \<Rightarrow> message \<Rightarrow> string \<Rightarrow> world \<Rightarrow> draft \<times> world" where
  "drafted E m body s =
     fold (image_attachment E m)
       (take (MAX_IMAGES E) (good_attachments ''image'' (msg_attachments m)))
       (start_draft body, s)"

definition drafted_prev :: "env \<Rightarrow> message \<Rightarrow> world \<Rightarrow> draft \<times> world" where
  "drafted_prev E m s =
     fold (\<lambda>att. offer_prev E att (process_attachment (hooks E)))
       (take (MAX_IMAGES E) (good_attachments ''image'' (msg_attachments m)))
       (start_draft (msg_content m), s)"

definition normalize_ref :: "env \<Rightarrow> message \<Rightarrow> MsgNode \<Rightarrow> world \<Rightarrow> MsgNode \<times> world" where
  "normalize_ref E ref_msg ref_node s =
     (case drafted E ref_msg (msg_content ref_msg) s of
        (d, s1) \<Rightarrow>
          (case assemble E ref_msg d of
             (text, clipped) \<Rightarrow>
               ((if clipped then ref_node\<lparr>too_much_text := True\<rparr> else ref_node)
                  \<lparr>data := Some \<lparr>content = make_content text (image_parts d),
                                 role = (if msg_author ref_msg = bot_id E then ''assistant'' else ''user''),
                                 name = (if LLM_ACCEPTS_NAMES E then Some (str_nat (msg_author ref_msg))
                                         else None)\<rparr>\<rparr>,
                s1)))"

definition normalize_prev :: "env \<Rightarrow> message \<Rightarrow> MsgNode \<Rightarrow> world \<Rightarrow> MsgNode \<times> world" where
  "normalize_prev E prev_msg prev_node s =
     (case drafted_prev E prev_msg s of
        (d, s1) \<Rightarrow>
          (case assemble E prev_msg d of
             (text, clipped) \<Rightarrow>
               ((if clipped then prev_node\<lparr>too_much_text := True\<rparr> else prev_node)
                  \<lparr>data := Some \<lparr>content = make_content text (image_parts d),
                                 role = (if msg_author prev_msg = bot_id E then ''assistant'' else ''user''),
                                 name = (if LLM_ACCEPTS_NAMES E then Some (str_nat (msg_author prev_msg))
                                         else None)\<rparr>\<rparr>,
                s1)))"

text \<open>The current message: its text is \<open>effective_content\<close>, and the node's flags and the
  user warnings are set as well.\<close>

definition normalize_curr ::
  "env \<Rightarrow> message \<Rightarrow> string \<Rightarrow> MsgNode \<Rightarrow> world \<Rightarrow> MsgNode \<times> warning set \<times> world" where
  "normalize_curr E new_msg effective_content curr_node s =
     (let good_image = good_attachments ''image'' (msg_attachments new_msg);
          good_text = good_attachments ''text'' (msg_attachments new_msg)
      in case drafted E new_msg effective_content s of
        (d, s1) \<Rightarrow>
          (case assemble E new_msg d of
             (text, clipped) \<Rightarrow>
               (let many = (length good_image > MAX_IMAGES E);
                    bad = (length (msg_attachments new_msg) > length good_image + length good_text)
                in ((if clipped then curr_node\<lparr>too_much_text := True\<rparr> else curr_node)
                      \<lparr>data := Some \<lparr>content = make_content text (image_parts d), role = ''user'',
                                     name = (if LLM_ACCEPTS_NAMES E then Some (str_nat (msg_author new_msg))
                                             else None)\<rparr>,
                       too_many_images := many, has_bad_attachments := bad\<rparr>,
                    (if clipped then {MaxText (MAX_TEXT E)} else {})
                      \<union> (if many then {if MAX_IMAGES E > 0 then MaxImages (MAX_IMAGES E) else CantSeeImages}
                          else {})
                      \<union> (if bad then {UnsupportedAttachments} else {}),
                    s1))))"

section \<open>Context Chain Walker\<close>

text \<open>
  One visited message of the reply path: its node is fetched or created, its turn is
  computed unless the node already has one, and a turn with content joins the history.
  The guard taken around the computation (\<open>async with ref_node.lock\<close>) is free again
  when the step ends; the walker is modelled for guards that are free when it reaches
  them.
\<close>

definition visit_ref :: "env \<Rightarrow> message \<Rightarrow> turn list \<times> world \<Rightarrow> turn list \<times> world" where
  "visit_ref E ref_msg hs =
     (case hs of
        (conversation_history, s) \<Rightarrow>
          (case setdefault (msg_id ref_msg) new_MsgNode (msg_nodes s) of
             (ref_node, ns) \<Rightarrow>
               (case (if data ref_node = None then
                        (case normalize_ref E ref_msg ref_node (s\<lparr>msg_nodes := ns\<rparr>) of
                           (node', s') \<Rightarrow>
                             (node', s'\<lparr>msg_nodes := AList.update (msg_id ref_msg) node' (msg_nodes s')\<rparr>))
                      else (ref_node, s\<lparr>msg_nodes := ns\<rparr>)) of
                  (node, s1) \<Rightarrow>
                    (case data node of
                       None \<Rightarrow> (conversation_history, s1)
                     | Some d \<Rightarrow>
                         (if truthy (content d) then conversation_history @ [d]
                          else conversation_history, s1)))))"

definition visit_prev :: "env \<Rightarrow> message \<Rightarrow> turn list \<times> world \<Rightarrow> turn list \<times> world" where
  "visit_prev E prev_msg hs =
     (case hs of
        (conversation_history, s) \<Rightarrow>
          (case setdefault (msg_id prev_msg) new_MsgNode (msg_nodes s) of
             (prev_node, ns) \<Rightarrow>
               (case (if data prev_node = None then
                        (case normalize_prev E prev_msg prev_node (s\<lparr>msg_nodes := ns\<rparr>) of
                           (node', s') \<Rightarrow>
                             (node', s'\<lparr>msg_nodes := AList.update (msg_id prev_msg) node' (msg_nodes s')\<rparr>))
                      else (prev_node, s\<lparr>msg_nodes := ns\<rparr>)) of
                  (node, s1) \<Rightarrow>
                    (case data node of
                       None \<Rightarrow> (conversation_history, s1)
                     | Some d \<Rightarrow>
                         (if truthy (content d) then conversation_history @ [d]
                          else conversation_history, s1)))))"

text \<open>\<open>while current_msg.reference\<close>: a reference that cannot be fetched ends the loop.\<close>

fun follow_replies :: "env \<Rightarrow> message \<Rightarrow> turn list \<times> world \<Rightarrow> turn list \<times> world" where
  "follow_replies E (Message i a c atts es t None) hs = hs"
| "follow_replies E (Message i a c atts es t (Some None)) hs = hs"
| "follow_replies E (Message i a c atts es t (Some (Some ref_msg))) hs =
     follow_replies E ref_msg (visit_ref E ref_msg hs)"

text \<open>
  \<open>async for prev_msg in new_msg.channel.history(before=new_msg, limit=MAX_MESSAGES)\<close>,
  over the messages the channel yields, newest first.
\<close>

fun scan_history :: "env \<Rightarrow> message \<Rightarrow> message list \<Rightarrow> turn list \<times> world \<Rightarrow> turn list \<times> world" where
  "scan_history E new_msg [] hs = hs"
| "scan_history E new_msg (prev_msg # rest) hs =
     (if msg_author prev_msg = bot_id E \<and> msg_content prev_msg = [] \<and> msg_embeds prev_msg = []
      then scan_history E new_msg rest hs
      else if msg_created_at new_msg - msg_created_at prev_msg > 300 * 1000000 then hs
      else scan_history E new_msg rest (visit_prev E prev_msg hs))"

definition build_history ::
  "env \<Rightarrow> arrival \<Rightarrow> message \<Rightarrow> bool \<Rightarrow> world \<Rightarrow> turn list \<times> world" where
  "build_history E a new_msg ignore_history s =
     (if \<not> ignore_history \<and> msg_reference new_msg \<noteq> None then
        (case follow_replies E new_msg ([], s) of (h, s') \<Rightarrow> (rev h, s'))
      else if \<not> ignore_history then
        (case scan_history E new_msg (take (MAX_MESSAGES E) (history a)) ([], s) of
           (h, s') \<Rightarrow> (rev h, s'))
      else ([], s))"

definition current_turn ::
  "env \<Rightarrow> message \<Rightarrow> string \<Rightarrow> world \<Rightarrow> MsgNode \<times> warning set \<times> world" where
  "current_turn E new_msg effective_content s =
     (case setdefault (msg_id new_msg) new_MsgNode (msg_nodes s) of
        (curr_node, ns) \<Rightarrow>
          if data curr_node = None then
            (case normalize_curr E new_msg effective_content curr_node (s\<lparr>msg_nodes := ns\<rparr>) of
               (node', ws, s') \<Rightarrow>
                 (node', ws, s'\<lparr>msg_nodes := AList.update (msg_id new_msg) node' (msg_nodes s')\<rparr>))
          else (curr_node, {}, s\<lparr>msg_nodes := ns\<rparr>))"

definition get_system_prompt :: "env \<Rightarrow> turn" where
  "get_system_prompt E =
     \<lparr>content = Text (join [CHR 0x0A]
        ([system_prompt E]
         @ [''Today'' @ [CHR 0x27] @ ''s date: '' @ today E @ ''.'']
         @ (if LLM_ACCEPTS_NAMES E
            then [''User'' @ [CHR 0x27] @ ''s names are their Discord IDs and should be typed as ''
                  @ [CHR 0x27] @ ''<@ID>'' @ [CHR 0x27] @ ''.'']
            else [])
         @ [''You are in a group chat. Respond to the latest message while considering relevant conversation context.''])),
      role = ''system'', name = None\<rparr>"

section \<open>Hook Dispatcher\<close>

fun run_on_bot_ready :: "(string \<times> unit result) list \<Rightarrow> world \<Rightarrow> world" where
  "run_on_bot_ready [] s = s"
| "run_on_bot_ready (hook # rest) s =
     (case snd hook of
        Raises e \<Rightarrow>
          run_on_bot_ready rest
            (log_error (''Error in on_bot_ready hook: '' @ e) (call ''on_bot_ready'' (fst hook) s))
      | Returns u \<Rightarrow> run_on_bot_ready rest (call ''on_bot_ready'' (fst hook) s))"

definition on_ready :: "env \<Rightarrow> world \<Rightarrow> world" where
  "on_ready E s = run_on_bot_ready (on_bot_ready (hooks E)) s"

text \<open>The first component is \<open>stop_processing\<close>.\<close>

fun run_on_message_received ::
  "(string \<times> (message \<Rightarrow> bool option result)) list \<Rightarrow> message \<Rightarrow> world \<Rightarrow> bool \<times> world" where
  "run_on_message_received [] new_msg s = (False, s)"
| "run_on_message_received (hook # rest) new_msg s =
     (case snd hook new_msg of
        Raises e \<Rightarrow>
          run_on_message_received rest new_msg
            (log_error (''Error in on_message_received hook: '' @ e)
               (call ''on_message_received'' (fst hook) s))
      | Returns r \<Rightarrow>
          if r = Some False then (True, call ''on_message_received'' (fst hook) s)
          else run_on_message_received rest new_msg (call ''on_message_received'' (fst hook) s))"

text \<open>\<open>messages = await hook(messages, new_msg) or messages\<close>.\<close>

fun run_before_llm_call ::
  "(string \<times> (turn list \<Rightarrow> message \<Rightarrow> turn list option result)) list \<Rightarrow> message \<Rightarrow>
   turn list \<times> world \<Rightarrow> turn list \<times> world" where
  "run_before_llm_call [] new_msg (messages, s) = (messages, s)"
| "run_before_llm_call (hook # rest) new_msg (messages, s) =
     (case snd hook messages new_msg of
        Raises e \<Rightarrow>
          run_before_llm_call rest new_msg
            (messages, log_error (''Error in before_llm_call hook: '' @ e)
                         (call ''before_llm_call'' (fst hook) s))
      | Returns r \<Rightarrow>
          run_before_llm_call rest new_msg
            (case r of None \<Rightarrow> messages | Some ms \<Rightarrow> if ms \<noteq> [] then ms else messages,
             call ''before_llm_call'' (fst hook) s))"

fun run_after_llm_response ::
  "(string \<times> (message \<Rightarrow> string \<Rightarrow> unit result)) list \<Rightarrow> message \<Rightarrow> string \<Rightarrow> world \<Rightarrow> world" where
  "run_after_llm_response [] new_msg full_response s = s"
| "run_after_llm_response (hook # rest) new_msg full_response s =
     (case snd hook new_msg full_response of
        Raises e \<Rightarrow>
          run_after_llm_response rest new_msg full_response
            (log_error (''Error in after_llm_response hook: '' @ e)
               (call ''after_llm_response'' (fst hook) s))
      | Returns u \<Rightarrow>
          run_after_llm_response rest new_msg full_response
            (call ''after_llm_response'' (fst hook) s))"

section \<open>Streaming Response Renderer\<close>

definition STREAMING_INDICATOR :: string where
  "STREAMING_INDICATOR = '' o''"

definition EDIT_DELAY_SECONDS :: int where
  "EDIT_DELAY_SECONDS = 1"

definition MAX_MESSAGE_LENGTH :: "env \<Rightarrow> nat" where
  "MAX_MESSAGE_LENGTH E = (if USE_PLAIN_RESPONSES E then 3000 else 4096 - length STREAMING_INDICATOR)"

text \<open>
  The locals of the streaming loop: \<open>edit_task\<close> says whether an edit task has been
  created, \<open>embed_var\<close> is the local \<open>embed\<close>.
\<close>

record rendering =
  response_msgs :: "snowflake list"
  response_contents :: "string list"
  edit_task :: bool
  embed_var :: "embed option"

text \<open>
  A new outbound message showing the indicator, its node registered with the guard
  held, the message appended to \<open>response_msgs\<close>.
\<close>

definition open_message :: "env \<Rightarrow> warning set \<Rightarrow> rendering \<times> world \<Rightarrow> rendering \<times> world" where
  "open_message E ws rs =
     (case rs of
        (r, s) \<Rightarrow>
          (let e = \<lparr>description = STREAMING_INDICATOR, color = INCOMPLETE, embed_fields = ws\<rparr> in
           case send (if USE_PLAIN_RESPONSES E then Plain STREAMING_INDICATOR else Rich e) s of
             (response_msg, s1) \<Rightarrow>
               (r\<lparr>response_msgs := response_msgs r @ [response_msg],
                  embed_var := (if USE_PLAIN_RESPONSES E then embed_var r else Some e)\<rparr>,
                s1\<lparr>msg_nodes := AList.update response_msg (new_MsgNode\<lparr>lock := True\<rparr>) (msg_nodes s1)\<rparr>)))"

text \<open>
  The throttled update. \<open>last_task_time\<close> has been set by the time it is read (with the
  first chunk at the latest), and in the embed mode \<open>embed\<close> is bound.
\<close>

definition push_update :: "env \<Rightarrow> chunk \<Rightarrow> rendering \<times> world \<Rightarrow> rendering \<times> world" where
  "push_update E c rs =
     (case rs of
        (r, s) \<Rightarrow>
          (let should_update =
                 (finish_reason c \<noteq> None
                  \<or> ((\<not> edit_task r \<or> edit_done c)
                     \<and> (case last_task_time s of
                           None \<Rightarrow> False
                         | Some t \<Rightarrow> clock c - t \<ge> EDIT_DELAY_SECONDS * 1000000)));
               unfinished = (finish_reason c = None \<or> finish_reason c = Some []);
               shown = last (response_contents r) @ (if unfinished then STREAMING_INDICATOR else [])
           in if \<not> should_update then (r, s)
              else if USE_PLAIN_RESPONSES E then
                (r\<lparr>edit_task := True\<rparr>,
                 s\<lparr>outbox := outbox s @ [Edit (last (response_msgs r)) (Plain shown)],
                   last_task_time := Some (clock c)\<rparr>)
              else
                (case embed_var r of
                   None \<Rightarrow> (r, s)
                 | Some e \<Rightarrow>
                     (let e' = e\<lparr>description := shown,
                                 color := (if finish_reason c = Some ''stop'' then COMPLETE else INCOMPLETE)\<rparr>
                      in (r\<lparr>edit_task := True, embed_var := Some e'\<rparr>,
                          s\<lparr>outbox := outbox s @ [Edit (last (response_msgs r)) (Rich e')],
                            last_task_time := Some (clock c)\<rparr>)))))"

text \<open>The three steps of the loop body before the update: start, split, accumulate.\<close>

definition start_segment :: "env \<Rightarrow> warning set \<Rightarrow> chunk \<Rightarrow> rendering \<times> world \<Rightarrow> rendering \<times> world" where
  "start_segment E user_warnings c rs =
     (case rs of
        (r, s) \<Rightarrow>
          if response_contents r = [] then
            (case open_message E user_warnings (r\<lparr>response_contents := [[]]\<rparr>, s) of
               (r', s') \<Rightarrow> (r', s'\<lparr>last_task_time := Some (clock c)\<rparr>))
          else (r, s))"

definition split_segment :: "env \<Rightarrow> string \<Rightarrow> rendering \<times> world \<Rightarrow> rendering \<times> world" where
  "split_segment E curr_content rs =
     (case rs of
        (r, s) \<Rightarrow>
          if length (last (response_contents r) @ curr_content) > MAX_MESSAGE_LENGTH E then
            open_message E {} (r\<lparr>response_contents := response_contents r @ [[]]\<rparr>, s)
          else (r, s))"

definition accumulate :: "string \<Rightarrow> rendering \<times> world \<Rightarrow> rendering \<times> world" where
  "accumulate curr_content rs =
     (case rs of
        (r, s) \<Rightarrow>
          (r\<lparr>response_contents :=
                butlast (response_contents r) @ [last (response_contents r) @ curr_content]\<rparr>, s))"

definition curr_content_of :: "chunk \<Rightarrow> string" where
  "curr_content_of c = (case delta_content c of None \<Rightarrow> [] | Some t \<Rightarrow> t)"

definition on_chunk :: "env \<Rightarrow> warning set \<Rightarrow> chunk \<Rightarrow> rendering \<times> world \<Rightarrow> rendering \<times> world" where
  "on_chunk E user_warnings c rs =
     push_update E c
       (accumulate (curr_content_of c)
          (split_segment E (curr_content_of c) (start_segment E user_warnings c rs)))"

definition send_whole :: "string \<Rightarrow> rendering \<times> world \<Rightarrow> rendering \<times> world" where
  "send_whole text rs =
     (case rs of
        (r, s) \<Rightarrow>
          (case send (Plain text) s of
             (response_msg, s1) \<Rightarrow>
               (r\<lparr>response_msgs := response_msgs r @ [response_msg]\<rparr>,
                s1\<lparr>msg_nodes := AList.update response_msg (new_MsgNode\<lparr>lock := True\<rparr>) (msg_nodes s1)\<rparr>)))"

text \<open>
  The \<open>try\<close> block around the model call: every chunk of the stream is handled in turn;
  a stream that raises is logged and answered by one failure notice.
\<close>

definition generate :: "env \<Rightarrow> warning set \<Rightarrow> stream \<Rightarrow> world \<Rightarrow> rendering \<times> world" where
  "generate E user_warnings st s =
     (case fold (on_chunk E user_warnings) (fst st)
             (\<lparr>response_msgs = [], response_contents = [], edit_task = False, embed_var = None\<rparr>, s) of
        (r, s1) \<Rightarrow>
          (case snd st of
             Exhausted \<Rightarrow>
               if USE_PLAIN_RESPONSES E \<and> response_msgs r = []
               then fold send_whole (response_contents r) (r, s1)
               else (r, s1)
           | StreamError e \<Rightarrow>
               (r, snd (send (Fixed GenerationFailed)
                          (log_error (''Error while generating response: '' @ e) s1)))))"

text \<open>
  The end of the reply: the full response becomes the turn of every outbound node and
  each guard is released.
\<close>

definition assistant_turn :: "env \<Rightarrow> string \<Rightarrow> turn" where
  "assistant_turn E full_response =
     \<lparr>content = Text full_response, role = ''assistant'',
      name = (if LLM_ACCEPTS_NAMES E then Some (str_nat (bot_id E)) else None)\<rparr>"

definition settle :: "env \<Rightarrow> rendering \<Rightarrow> world \<Rightarrow> world" where
  "settle E r s =
     s\<lparr>msg_nodes :=
         fold (\<lambda>msg ns. AList.map_entry msg
                 (\<lambda>node. node\<lparr>data := Some (assistant_turn E (concat (response_contents r))),
                               lock := False\<rparr>) ns)
           (response_msgs r) (msg_nodes s)\<rparr>"

section \<open>MessageNode Cache: the eviction sweep\<close>

definition MAX_MESSAGE_NODES :: nat where
  "MAX_MESSAGE_NODES = 100"

text \<open>
  \<open>async with msg_nodes.setdefault(msg_id, MsgNode()).lock: del msg_nodes[msg_id]\<close> for
  each victim in turn. A victim whose guard is held makes the sweep wait at it:
  \<open>Waiting\<close> carries the victims still to be deleted, the held one first.
\<close>

datatype sweep = Swept nodes | Waiting "snowflake list" nodes

fun evict :: "snowflake list \<Rightarrow> nodes \<Rightarrow> sweep" where
  "evict [] ns = Swept ns"
| "evict (victim # rest) ns =
     (case setdefault victim new_MsgNode ns of
        (node, ns') \<Rightarrow>
          if lock node then Waiting (victim # rest) ns'
          else evict rest (AList.delete victim ns'))"

definition evict_oldest :: "nodes \<Rightarrow> sweep" where
  "evict_oldest ns =
     (let num_nodes = length ns in
      if num_nodes > MAX_MESSAGE_NODES
      then evict (take (num_nodes - MAX_MESSAGE_NODES) (sort (map fst ns))) ns
      else Swept ns)"

definition release :: "snowflake \<Rightarrow> nodes \<Rightarrow> nodes" where
  "release k ns = AList.map_entry k (\<lambda>node. node\<lparr>lock := False\<rparr>) ns"

section \<open>Conversation Loop\<close>

definition SPEAK_EVERY_TURNS :: nat where
  "SPEAK_EVERY_TURNS = 50"

definition strip :: "string \<Rightarrow> string" where
  "strip t = rev (dropWhile is_space (rev (dropWhile is_space t)))"

text \<open>
  How \<open>on_message\<close> ends: it returns, it is left by an exception nobody catches, or it
  waits in the eviction sweep for a guard (with the victims still to be deleted).
  The exceptions that can leave it are the \<open>IndexError\<close> of a command mark with nothing
  behind it and the exception of a failure notice that cannot be sent.
\<close>

datatype outcome = Done world | Uncaught string world | Suspended "snowflake list" world

text \<open>The loop of \<open>handle_bot_conversation\<close>, \<open>n\<close> being \<open>exchanges_left\<close>.\<close>

fun conversation_loop :: "env \<Rightarrow> nat \<Rightarrow> snowflake \<Rightarrow> world \<Rightarrow> world" where
  "conversation_loop E 0 last_message s = s"
| "conversation_loop E (Suc n) last_message s =
     (if \<not> active (converse_state s) then s
      else
        (let conversation_history =
               (case map_of (msg_nodes s) last_message of
                  None \<Rightarrow> []
                | Some curr_node \<Rightarrow> (case data curr_node of None \<Rightarrow> [] | Some d \<Rightarrow> [d]));
             messages = get_system_prompt E # conversation_history;
             s1 = s\<lparr>requests := requests s @ [messages]\<rparr>
         in case snd (llm E messages) of
              StreamError e \<Rightarrow>
                snd (send (Fixed ConverseBroke) (log_error (''Error in bot conversation: '' @ e) s1))
            | Exhausted \<Rightarrow>
                (case send (Plain (concat (map curr_content_of (fst (llm E messages))))) s1 of
                   (response_msg, s2) \<Rightarrow>
                     conversation_loop E n response_msg
                       (s2\<lparr>msg_nodes :=
                             AList.update response_msg
                               (new_MsgNode\<lparr>data := Some (assistant_turn E
                                  (concat (map curr_content_of (fst (llm E messages)))))\<rparr>)
                               (msg_nodes s2),
                           converse_state := (converse_state s2)\<lparr>exchanges_left := n\<rparr>\<rparr>))))"

definition handle_bot_conversation :: "env \<Rightarrow> snowflake \<Rightarrow> nat \<Rightarrow> message \<Rightarrow> world \<Rightarrow> world" where
  "handle_bot_conversation E channel exchanges initial_message s =
     (conversation_loop E exchanges (msg_id initial_message)
        (s\<lparr>converse_state :=
             \<lparr>active = True, exchanges_left = exchanges, conv_channel_id = Some channel\<rparr>\<rparr>))
     \<lparr>converse_state := \<lparr>active = False, exchanges_left = 0, conv_channel_id = None\<rparr>\<rparr>"

definition converse_command :: "env \<Rightarrow> arrival \<Rightarrow> message \<Rightarrow> world \<Rightarrow> world" where
  "converse_command E a new_msg s =
     (case drop 1 (split (msg_content new_msg)) of
        [arg] \<Rightarrow>
          (case py_int arg of
             None \<Rightarrow> snd (send (Fixed ConverseInvalid) s)
           | Some exchanges \<Rightarrow>
               if 1 \<le> exchanges \<and> exchanges \<le> 10 then
                 handle_bot_conversation E (channel_id a) (nat exchanges) new_msg
                   (snd (send (Fixed (ConverseStarting exchanges)) s))
               else snd (send (Fixed ConverseRange) s))
      | _ \<Rightarrow> snd (send (Fixed ConverseUsage) s))"

text \<open>
  The branch of a message that starts with \<open>!\<close>. \<open>split()[0]\<close> raises \<open>IndexError\<close> when
  nothing follows the mark. What a custom command sends is the plugin's own business.
\<close>

definition run_command :: "env \<Rightarrow> arrival \<Rightarrow> message \<Rightarrow> world \<Rightarrow> outcome" where
  "run_command E a new_msg s =
     (case split (drop 1 (msg_content new_msg)) of
        [] \<Rightarrow> Uncaught ''IndexError'' s
      | word # args \<Rightarrow>
          (let command = lower word; user_id = str_nat (msg_author new_msg) in
           case map_of (custom_commands (hooks E)) command of
             Some f \<Rightarrow>
               (case f new_msg user_id of
                  Returns u \<Rightarrow> Done (call ''custom_commands'' command s)
                | Raises e \<Rightarrow>
                    Done (snd (send (Fixed CommandFailed)
                                 (log_error (''Error in custom command '' @ command @ '': '' @ e)
                                    (call ''custom_commands'' command s)))))
           | None \<Rightarrow>
               if command = ''plugins'' then Done (snd (send (Fixed (PluginList (loaded_plugins E))) s))
               else if command = ''converse'' then Done (converse_command E a new_msg s)
               else Done s))"

definition reply_to_bot :: "env \<Rightarrow> message \<Rightarrow> world \<Rightarrow> bool \<times> world" where
  "reply_to_bot E new_msg s =
     (case msg_reference new_msg of
        None \<Rightarrow> (False, s)
      | Some None \<Rightarrow> (False, log_error ''Error fetching referenced message'' s)
      | Some (Some referenced_msg) \<Rightarrow> (msg_author referenced_msg = bot_id E, s))"

text \<open>
  From the context build to the eviction sweep (the part of \<open>on_message\<close> after the
  trigger and permission checks).
\<close>

definition request_messages :: "env \<Rightarrow> turn list \<Rightarrow> MsgNode \<Rightarrow> turn list" where
  "request_messages E conversation_history curr_node =
     take (MAX_MESSAGES E + 1)
       (get_system_prompt E #
          (case data curr_node of
             None \<Rightarrow> conversation_history
           | Some d \<Rightarrow>
               if truthy (content d) then conversation_history @ [d] else conversation_history))"

definition answer :: "env \<Rightarrow> message \<Rightarrow> warning set \<Rightarrow> turn list \<Rightarrow> world \<Rightarrow> rendering \<times> world" where
  "answer E new_msg user_warnings messages s =
     (case generate E user_warnings (llm E messages) (s\<lparr>requests := requests s @ [messages]\<rparr>) of
        (r, s1) \<Rightarrow>
          (r, settle E r
                (run_after_llm_response (after_llm_response (hooks E)) new_msg
                   (concat (response_contents r)) s1)))"

text \<open>
  When the stream raised and the send of the failure notice raises too, the exception
  leaves \<open>on_message\<close> from the \<open>except\<close> block: the error is logged, and neither the
  hooks of \<open>after_llm_response\<close> nor the release of the guards run.
\<close>

definition interrupted :: "env \<Rightarrow> warning set \<Rightarrow> turn list \<Rightarrow> string \<Rightarrow> world \<Rightarrow> world" where
  "interrupted E user_warnings messages e s =
     log_error (''Error while generating response: '' @ e)
       (snd (fold (on_chunk E user_warnings) (fst (llm E messages))
               (\<lparr>response_msgs = [], response_contents = [], edit_task = False, embed_var = None\<rparr>,
                s\<lparr>requests := requests s @ [messages]\<rparr>)))"

definition complete ::
  "env \<Rightarrow> message \<Rightarrow> warning set \<Rightarrow> turn list \<Rightarrow> world \<Rightarrow> world + rendering \<times> world" where
  "complete E new_msg user_warnings messages s =
     (case snd (llm E messages) of
        Exhausted \<Rightarrow> Inr (answer E new_msg user_warnings messages s)
      | StreamError e \<Rightarrow>
          if notice_delivered E then Inr (answer E new_msg user_warnings messages s)
          else Inl (interrupted E user_warnings messages e s))"

definition reply :: "env \<Rightarrow> arrival \<Rightarrow> message \<Rightarrow> bool \<Rightarrow> world \<Rightarrow> outcome" where
  "reply E a new_msg is_new_command s =
     (let ignore_history = is_new_command;
          effective_content =
            (if is_new_command
             then (if length (msg_content new_msg) > length ''!new ''
                   then strip (drop (length ''!new '') (msg_content new_msg)) else [])
             else msg_content new_msg)
      in case build_history E a new_msg ignore_history s of
           (conversation_history, s1) \<Rightarrow>
             (case current_turn E new_msg effective_content s1 of
                (curr_node, user_warnings, s2) \<Rightarrow>
                  (case run_before_llm_call (before_llm_call (hooks E)) new_msg
                          (request_messages E conversation_history curr_node, s2) of
                     (messages, s3) \<Rightarrow>
                       (case complete E new_msg user_warnings messages s3 of
                          Inl s4 \<Rightarrow> Uncaught ''HTTPException'' s4
                        | Inr (r, s4) \<Rightarrow>
                            (case evict_oldest (msg_nodes s4) of
                               Swept ns \<Rightarrow> Done (s4\<lparr>msg_nodes := ns\<rparr>)
                             | Waiting victims ns \<Rightarrow> Suspended victims (s4\<lparr>msg_nodes := ns\<rparr>))))))"

definition respond :: "env \<Rightarrow> arrival \<Rightarrow> message \<Rightarrow> world \<Rightarrow> outcome" where
  "respond E a new_msg s =
     (case reply_to_bot E new_msg s of
        (is_reply_to_bot, s1) \<Rightarrow>
          (let is_new_command = startswith (msg_content new_msg) ''!new'';
               is_from_other_bot =
                 (str_nat (msg_author new_msg) \<in> set (OTHER_BOT_IDS E)
                  \<and> msg_author new_msg \<noteq> bot_id E
                  \<and> active (converse_state s1)
                  \<and> conv_channel_id (converse_state s1) = Some (channel_id a));
               random_response = (MESSAGE_COUNT s1 mod SPEAK_EVERY_TURNS = 0)
           in if \<not> (bot_mentioned a \<or> name_trigger a \<or> mom_trigger a \<or> is_reply_to_bot
                     \<or> is_new_command \<or> is_from_other_bot \<or> random_response)
              then Done s1
              else if ALLOWED_CHANNEL_IDS E \<noteq> []
                      \<and> String (str_nat (channel_id a)) \<notin> set (ALLOWED_CHANNEL_IDS E)
              then Done s1
              else if ALLOWED_ROLE_IDS E \<noteq> []
                      \<and> (case author_roles a of
                            None \<Rightarrow> False
                          | Some roles \<Rightarrow> \<not> list_ex (\<lambda>r. Number r \<in> set (ALLOWED_ROLE_IDS E)) roles)
              then Done s1
              else if \<not> channel_type_allowed a then Done s1
              else reply E a new_msg is_new_command s1))"

definition on_message :: "env \<Rightarrow> arrival \<Rightarrow> message \<Rightarrow> world \<Rightarrow> outcome" where
  "on_message E a new_msg s =
     (if msg_author new_msg = bot_id E then Done s
      else
        (case run_on_message_received (on_message_received (hooks E)) new_msg
                (s\<lparr>MESSAGE_COUNT := MESSAGE_COUNT s + 1\<rparr>) of
           (stop_processing, s1) \<Rightarrow>
             if stop_processing then Done s1
             else if startswith (msg_content new_msg) ''//'' then Done s1
             else if startswith (msg_content new_msg) ''!'' then run_command E a new_msg s1
             else respond E a new_msg s1))"

section \<open>Notions used to state the properties\<close>

text \<open>The log aside, what a run did.\<close>

definition unlogged :: "world \<Rightarrow> world" where
  "unlogged s = s\<lparr>logged := []\<rparr>"

definition only_images :: "draft \<Rightarrow> bool" where
  "only_images d = list_all (\<lambda>p. case p of ImageUrl u \<Rightarrow> True | TextPart t \<Rightarrow> False) (image_parts d)"

text \<open>A node whose turn has a text of exactly \<open>n\<close> characters and whose flag is set.\<close>

definition cut_to :: "nat \<Rightarrow> MsgNode \<Rightarrow> bool" where
  "cut_to n node =
     (case data node of
        None \<Rightarrow> False
      | Some t \<Rightarrow> length (text_of (content t)) = n \<and> too_much_text node)"

subsection \<open>Sample inputs\<close>

definition no_hooks :: plugin_hooks where
  "no_hooks = \<lparr>on_bot_ready = [], on_message_received = [], process_attachment = [],
     before_llm_call = [], after_llm_response = [], custom_commands = []\<rparr>"

definition sample_env :: env where
  "sample_env = \<lparr>bot_id = 1, system_prompt = ''Be kind.'', today = ''November 04 2026'',
     MAX_TEXT = 5, MAX_IMAGES = 1, MAX_MESSAGES = 2, USE_PLAIN_RESPONSES = False,
     LLM_ACCEPTS_IMAGES = False, LLM_ACCEPTS_NAMES = False, ALLOWED_CHANNEL_IDS = [],
     ALLOWED_ROLE_IDS = [], OTHER_BOT_IDS = [], hooks = no_hooks, loaded_plugins = [],
     http_base64 = (\<lambda>u. ''QUJD''), http_text = (\<lambda>u. ''notes''),
     llm = (\<lambda>ms. ([], Exhausted)), notice_delivered = True\<rparr>"

definition fresh_world :: world where
  "fresh_world = \<lparr>msg_nodes = [], last_task_time = None, MESSAGE_COUNT = 0,
     converse_state = \<lparr>active = False, exchanges_left = 0, conv_channel_id = None\<rparr>,
     next_id = 1000, outbox = [], logged = [], invoked = [], requests = []\<rparr>"

definition sample_arrival :: arrival where
  "sample_arrival = \<lparr>bot_mentioned = True, name_trigger = False, mom_trigger = False,
     channel_id = 7, channel_type_allowed = True, author_roles = None, history = []\<rparr>"

definition long_message :: message where
  "long_message = Message 42 2 ''hello world'' [] [] 0 None"

text \<open>A hook result that does not claim the attachment: an exception, \<open>None\<close> or an empty dict.\<close>

definition declines :: "pydict option result \<Rightarrow> bool" where
  "declines r = (case r of Raises e \<Rightarrow> True | Returns None \<Rightarrow> True | Returns (Some res) \<Rightarrow> res = [])"

definition photo :: attachment where
  "photo = \<lparr>att_filename = ''car.png'', att_content_type = Some ''image/png'', att_size = 2048,
     att_url = ''https://cdn.example/car.png''\<rparr>"

definition broken_hook ::
  "string \<times> (attachment \<Rightarrow> bool \<Rightarrow> message option \<Rightarrow> pydict option result)" where
  "broken_hook = (''broken'', \<lambda>att accepts m. Raises ''boom'')"

definition shy_hook ::
  "string \<times> (attachment \<Rightarrow> bool \<Rightarrow> message option \<Rightarrow> pydict option result)" where
  "shy_hook = (''shy'', \<lambda>att accepts m. Returns None)"

definition captioner ::
  "string \<times> (attachment \<Rightarrow> bool \<Rightarrow> message option \<Rightarrow> pydict option result)" where
  "captioner = (''vision_caption'', \<lambda>att accepts m. Returns (Some [(''caption'', Some ''a red car'')]))"

definition other_captioner ::
  "string \<times> (attachment \<Rightarrow> bool \<Rightarrow> message option \<Rightarrow> pydict option result)" where
  "other_captioner = (''other'', \<lambda>att accepts m. Returns (Some [(''caption'', Some ''a blue car'')]))"

text \<open>A hook of \<open>on_message_received\<close> signals "stop" by returning \<open>False\<close>.\<close>

definition stops :: "bool option result \<Rightarrow> bool" where
  "stops r = (r = Returns (Some False))"

text \<open>What only \<open>on_message_received\<close> hooks were called between two states.\<close>

definition only_received_calls :: "world \<Rightarrow> world \<Rightarrow> bool" where
  "only_received_calls s s' =
     (length (invoked s) \<le> length (invoked s')
      \<and> take (length (invoked s)) (invoked s') = invoked s
      \<and> list_all (\<lambda>c. fst c = ''on_message_received'') (drop (length (invoked s)) (invoked s')))"

text \<open>No node touched, nothing sent, no request made to the model.\<close>

definition untouched :: "world \<Rightarrow> world \<Rightarrow> bool" where
  "untouched s s' =
     (msg_nodes s' = msg_nodes s \<and> outbox s' = outbox s \<and> requests s' = requests s
      \<and> next_id s' = next_id s)"

fun final_world :: "outcome \<Rightarrow> world" where
  "final_world (Done s) = s"
| "final_world (Uncaught e s) = s"
| "final_world (Suspended victims s) = s"

fun is_Done :: "outcome \<Rightarrow> bool" where
  "is_Done (Done s) = True"
| "is_Done (Uncaught e s) = False"
| "is_Done (Suspended victims s) = False"

definition stopper :: "string \<times> (message \<Rightarrow> bool option result)" where
  "stopper = (''facial_recognition'', \<lambda>m. Returns (Some False))"

definition tracker :: "string \<times> (message \<Rightarrow> bool option result)" where
  "tracker = (''memory'', \<lambda>m. Returns None)"

definition faulty :: "string \<times> (message \<Rightarrow> bool option result)" where
  "faulty = (''whisper'', \<lambda>m. Raises ''no audio'')"

definition env_with_received :: "(string \<times> (message \<Rightarrow> bool option result)) list \<Rightarrow> env" where
  "env_with_received hs = sample_env\<lparr>hooks := no_hooks\<lparr>on_message_received := hs\<rparr>\<rparr>"

definition comment_message :: message where
  "comment_message = Message 43 2 ''// note to self'' [] [] 0 None"

text \<open>
  A callable that returns \<open>None\<close> where the given one raises, and the registry in which
  every hook is replaced so.
\<close>

definition none_if_raises :: "'a option result \<Rightarrow> 'a option result" where
  "none_if_raises r = (case r of Raises e \<Rightarrow> Returns None | Returns v \<Rightarrow> Returns v)"

definition unit_if_raises :: "unit result \<Rightarrow> unit result" where
  "unit_if_raises r = (case r of Raises e \<Rightarrow> Returns () | Returns v \<Rightarrow> Returns v)"

definition calm_ready :: "(string \<times> unit result) list \<Rightarrow> (string \<times> unit result) list" where
  "calm_ready hs = map (\<lambda>h. (fst h, unit_if_raises (snd h))) hs"

definition calm_received ::
  "(string \<times> (message \<Rightarrow> bool option result)) list \<Rightarrow> (string \<times> (message \<Rightarrow> bool option result)) list" where
  "calm_received hs = map (\<lambda>h. (fst h, \<lambda>m. none_if_raises (snd h m))) hs"

definition calm_attachment ::
  "(string \<times> (attachment \<Rightarrow> bool \<Rightarrow> message option \<Rightarrow> pydict option result)) list \<Rightarrow>
   (string \<times> (attachment \<Rightarrow> bool \<Rightarrow> message option \<Rightarrow> pydict option result)) list" where
  "calm_attachment hs = map (\<lambda>h. (fst h, \<lambda>att accepts m. none_if_raises (snd h att accepts m))) hs"

definition calm_before ::
  "(string \<times> (turn list \<Rightarrow> message \<Rightarrow> turn list option result)) list \<Rightarrow>
   (string \<times> (turn list \<Rightarrow> message \<Rightarrow> turn list option result)) list" where
  "calm_before hs = map (\<lambda>h. (fst h, \<lambda>ms m. none_if_raises (snd h ms m))) hs"

definition calm_after ::
  "(string \<times> (message \<Rightarrow> string \<Rightarrow> unit result)) list \<Rightarrow>
   (string \<times> (message \<Rightarrow> string \<Rightarrow> unit result)) list" where
  "calm_after hs = map (\<lambda>h. (fst h, \<lambda>m t. unit_if_raises (snd h m t))) hs"

definition calm_env :: "env \<Rightarrow> env" where
  "calm_env E =
     E\<lparr>hooks := (hooks E)
          \<lparr>on_bot_ready := calm_ready (on_bot_ready (hooks E)),
           on_message_received := calm_received (on_message_received (hooks E)),
           process_attachment := calm_attachment (process_attachment (hooks E)),
           before_llm_call := calm_before (before_llm_call (hooks E)),
           after_llm_response := calm_after (after_llm_response (hooks E))\<rparr>\<rparr>"

fun is_Uncaught :: "outcome \<Rightarrow> bool" where
  "is_Uncaught (Done s) = False"
| "is_Uncaught (Uncaught e s) = True"
| "is_Uncaught (Suspended victims s) = False"

definition sample_ready :: "(string \<times> unit result) list" where
  "sample_ready = [(''memory'', Returns ()), (''voice_tts'', Raises ''no ffmpeg''), (''whisper'', Returns ())]"

definition sample_before :: "(string \<times> (turn list \<Rightarrow> message \<Rightarrow> turn list option result)) list" where
  "sample_before = [(''memory'', \<lambda>ms m. Returns None), (''rewrite'', \<lambda>ms m. Raises ''bad json''),
     (''template'', \<lambda>ms m. Returns (Some ms))]"

definition sample_after :: "(string \<times> (message \<Rightarrow> string \<Rightarrow> unit result)) list" where
  "sample_after = [(''voice_tts'', \<lambda>m t. Raises ''no voice''), (''voice_channel'', \<lambda>m t. Returns ())]"

text \<open>
  For the eviction sweep: whether the guard of a key is held, a guard taken by a writer
  in flight, the \<open>n\<close> lowest keys of the cache, and the cache without some keys.
\<close>

definition held :: "nodes \<Rightarrow> snowflake \<Rightarrow> bool" where
  "held ns k = (case map_of ns k of None \<Rightarrow> False | Some node \<Rightarrow> lock node)"

definition hold :: "snowflake \<Rightarrow> nodes \<Rightarrow> nodes" where
  "hold k ns = AList.map_entry k (\<lambda>node. node\<lparr>lock := True\<rparr>) ns"

definition oldest :: "nat \<Rightarrow> nodes \<Rightarrow> snowflake list" where
  "oldest n ns = take n (sort (map fst ns))"

definition without :: "snowflake list \<Rightarrow> nodes \<Rightarrow> nodes" where
  "without ks ns = filter (\<lambda>p. fst p \<notin> set ks) ns"

definition full_cache :: nodes where
  "full_cache = map (\<lambda>i. (i, new_MsgNode)) [1..<106]"

text \<open>For the renderer: the messages sent, the failure notices among them.\<close>

fun is_send :: "outbound \<Rightarrow> bool" where
  "is_send (Send i p) = True"
| "is_send (Edit i p) = False"

fun is_failure_notice :: "outbound \<Rightarrow> bool" where
  "is_failure_notice (Send i p) = (p = Fixed GenerationFailed)"
| "is_failure_notice (Edit i p) = False"

text \<open>
  What the streaming loop may do between two of its states: append outbound messages
  and their events, and touch no node but those of its outbound messages.
\<close>

definition extends :: "rendering \<times> world \<Rightarrow> rendering \<times> world \<Rightarrow> bool" where
  "extends a b =
     (prefix (response_msgs (fst a)) (response_msgs (fst b))
      \<and> prefix (outbox (snd a)) (outbox (snd b))
      \<and> length (filter is_send (outbox (snd b))) + length (response_msgs (fst a))
          = length (filter is_send (outbox (snd a))) + length (response_msgs (fst b))
      \<and> filter is_failure_notice (outbox (snd b)) = filter is_failure_notice (outbox (snd a))
      \<and> (\<forall>k. k \<notin> set (response_msgs (fst b))
            \<longrightarrow> map_of (msg_nodes (snd b)) k = map_of (msg_nodes (snd a)) k)
      \<and> logged (snd b) = logged (snd a) \<and> invoked (snd b) = invoked (snd a)
      \<and> requests (snd b) = requests (snd a))"

definition registered :: "rendering \<times> world \<Rightarrow> bool" where
  "registered a =
     (length (response_msgs (fst a)) = length (response_contents (fst a))
      \<and> (\<forall>k\<in>set (response_msgs (fst a)). map_of (msg_nodes (snd a)) k \<noteq> None))"

definition idle :: rendering where
  "idle = \<lparr>response_msgs = [], response_contents = [], edit_task = False, embed_var = None\<rparr>"

text \<open>An outbound node after the reply: guard free, turn of the assistant with the full text.\<close>

definition settled :: "string \<Rightarrow> nodes \<Rightarrow> snowflake \<Rightarrow> bool" where
  "settled full ns k =
     (case map_of ns k of
        None \<Rightarrow> False
      | Some node \<Rightarrow>
          \<not> lock node
          \<and> (case data node of
                None \<Rightarrow> False
              | Some t \<Rightarrow> content t = Text full \<and> role t = ''assistant''))"

definition token :: "string \<Rightarrow> int \<Rightarrow> chunk" where
  "token t at = \<lparr>delta_content = Some t, finish_reason = None, clock = at, edit_done = True\<rparr>"

definition final_chunk :: "int \<Rightarrow> chunk" where
  "final_chunk at = \<lparr>delta_content = None, finish_reason = Some ''stop'', clock = at, edit_done = True\<rparr>"

definition broken_stream :: stream where
  "broken_stream = ([token ''Hi'' 0, token '' there'' 2000000, token ''!'' 2100000],
     StreamError ''connection reset'')"

text \<open>A run of \<open>n\<close> copies of a character, for long tokens.\<close>

definition filler :: "nat \<Rightarrow> char \<Rightarrow> string" where
  "filler n c = replicate n c"

definition failing_env :: env where
  "failing_env = sample_env\<lparr>llm := (\<lambda>ms. broken_stream)\<rparr>"

text \<open>A world in which another reply is being written: the guard of node 900 is held.\<close>

definition busy_world :: world where
  "busy_world = fresh_world\<lparr>msg_nodes := [(900, new_MsgNode\<lparr>lock := True\<rparr>)]\<rparr>"


definition turn_at :: "world \<Rightarrow> snowflake \<Rightarrow> turn option" where
  "turn_at s k = (case map_of (msg_nodes s) k of None \<Rightarrow> None | Some node \<Rightarrow> data node)"







definition encoder ::
  "string \<times> (attachment \<Rightarrow> bool \<Rightarrow> message option \<Rightarrow> pydict option result)" where
  "encoder = (''resizer'', \<lambda>att accepts m. Returns (Some [(''image_data'', Some ''QUJD'')]))"

text \<open>
  The streaming loop of a reply after the chunks \<open>cs\<close>: the request has been recorded and
  the chunks have been handled in turn.
\<close>

definition streamed ::
  "env \<Rightarrow> warning set \<Rightarrow> chunk list \<Rightarrow> turn list \<Rightarrow> world \<Rightarrow> rendering \<times> world" where
  "streamed E ws cs messages s = fold (on_chunk E ws) cs (idle, s\<lparr>requests := requests s @ [messages]\<rparr>)"











section \<open>Properties\<close>


subsection \<open>The image parts of a draft are images\<close>

lemma only_images_claimed: "only_images d \<Longrightarrow> only_images (claimed b att res d)"
  by (auto simp: only_images_def claimed_def image_url_def Let_def split: option.splits)

lemma only_images_embed_raw: "only_images d \<Longrightarrow> only_images (embed_raw E att d)"
  by (auto simp: only_images_def embed_raw_def image_url_def)

lemma only_images_offer:
  "only_images (fst ds) \<Longrightarrow> only_images (fst (snd (offer E att m hs ds)))"
proof (induction hs arbitrary: ds)
  case Nil
  then show ?case by (cases ds) simp
next
  case (Cons h hs)
  obtain d s where ds: "ds = (d, s)" by (cases ds)
  with Cons show ?case
    by (auto simp: only_images_claimed split: result.splits option.splits)
qed

lemma only_images_image_attachment:
  "only_images (fst ds) \<Longrightarrow> only_images (fst (image_attachment E m att ds))"
  using only_images_offer [of ds E att m "process_attachment (hooks E)"]
  by (auto simp: image_attachment_def only_images_embed_raw split: prod.splits)

lemma only_images_offer_prev:
  "only_images (fst ds) \<Longrightarrow> only_images (fst (offer_prev E att hs ds))"
proof (induction hs arbitrary: ds)
  case Nil
  then show ?case by (cases ds) simp
next
  case (Cons h hs)
  obtain d s where ds: "ds = (d, s)" by (cases ds)
  with Cons show ?case
    by (auto simp: only_images_claimed only_images_embed_raw split: result.splits option.splits)
qed

lemma only_images_fold:
  assumes "\<And>x ds. only_images (fst ds) \<Longrightarrow> only_images (fst (f x ds))"
  shows "only_images (fst ds) \<Longrightarrow> only_images (fst (fold f xs ds))"
  by (induction xs arbitrary: ds) (auto simp: assms)

lemma only_images_drafted: "only_images (fst (drafted E m body s))"
  unfolding drafted_def
proof (rule only_images_fold)
  show "only_images (fst (start_draft body, s))"
    by (simp add: only_images_def start_draft_def)
qed (rule only_images_image_attachment)

lemma only_images_drafted_prev: "only_images (fst (drafted_prev E m s))"
  unfolding drafted_prev_def
proof (rule only_images_fold)
  show "only_images (fst (start_draft (msg_content m), s))"
    by (simp add: only_images_def start_draft_def)
qed (rule only_images_offer_prev)

lemma text_of_images:
  "list_all (\<lambda>p. case p of ImageUrl u \<Rightarrow> True | TextPart t \<Rightarrow> False) ps \<Longrightarrow> text_of (Parts ps) = []"
  by (induction ps) (auto split: part.splits)

lemma text_of_make_content: "only_images d \<Longrightarrow> text_of (make_content t (image_parts d)) = t"
  using text_of_images [of "image_parts d"] by (auto simp: make_content_def only_images_def)

lemma assemble_long:
  "MAX_TEXT E < length (full_text E m d) \<Longrightarrow>
   assemble E m d = (take (MAX_TEXT E) (full_text E m d), True)"
  by (simp add: assemble_def Let_def)

lemma normalize_curr_cut:
  assumes "MAX_TEXT E < length (full_text E m (fst (drafted E m body s)))"
  shows "cut_to (MAX_TEXT E) (fst (normalize_curr E m body node s))"
proof -
  obtain d s1 where d: "drafted E m body s = (d, s1)" by (cases "drafted E m body s")
  have oi: "only_images d" using only_images_drafted [of E m body s] d by simp
  from assms d have "MAX_TEXT E < length (full_text E m d)" by simp
  then show ?thesis
    by (simp add: cut_to_def normalize_curr_def d assemble_long Let_def text_of_make_content [OF oi])
qed

lemma normalize_ref_cut:
  assumes "MAX_TEXT E < length (full_text E m (fst (drafted E m (msg_content m) s)))"
  shows "cut_to (MAX_TEXT E) (fst (normalize_ref E m node s))"
proof -
  obtain d s1 where d: "drafted E m (msg_content m) s = (d, s1)"
    by (cases "drafted E m (msg_content m) s")
  have oi: "only_images d" using only_images_drafted [of E m "msg_content m" s] d by simp
  from assms d have "MAX_TEXT E < length (full_text E m d)" by simp
  then show ?thesis
    by (simp add: cut_to_def normalize_ref_def d assemble_long text_of_make_content [OF oi])
qed

lemma normalize_prev_cut:
  assumes "MAX_TEXT E < length (full_text E m (fst (drafted_prev E m s)))"
  shows "cut_to (MAX_TEXT E) (fst (normalize_prev E m node s))"
proof -
  obtain d s1 where d: "drafted_prev E m s = (d, s1)" by (cases "drafted_prev E m s")
  have oi: "only_images d" using only_images_drafted_prev [of E m s] d by simp
  from assms d have "MAX_TEXT E < length (full_text E m d)" by simp
  then show ?thesis
    by (simp add: cut_to_def normalize_prev_def d assemble_long text_of_make_content [OF oi])
qed

text \<open>
  C8. A message whose assembled text is longer than \<open>MAX_TEXT\<close> characters gets a turn
  whose text has exactly \<open>MAX_TEXT\<close> characters, and \<open>too_much_text\<close> is set on its node:
  for the current message, for a message of the reply chain and for a message of the
  channel history.
\<close>

theorem long_text_is_cut_to_MAX_TEXT:
  "(MAX_TEXT E < length (full_text E m (fst (drafted E m body s)))
      \<longrightarrow> cut_to (MAX_TEXT E) (fst (normalize_curr E m body node s)))
   \<and> (MAX_TEXT E < length (full_text E m (fst (drafted E m (msg_content m) s)))
      \<longrightarrow> cut_to (MAX_TEXT E) (fst (normalize_ref E m node s)))
   \<and> (MAX_TEXT E < length (full_text E m (fst (drafted_prev E m s)))
      \<longrightarrow> cut_to (MAX_TEXT E) (fst (normalize_prev E m node s)))"
  using normalize_curr_cut normalize_ref_cut normalize_prev_cut by blast

theorem long_text_is_cut_to_MAX_TEXT_witness:
  "MAX_TEXT sample_env < length (full_text sample_env long_message
       (fst (drafted sample_env long_message ''hello world'' fresh_world)))
   \<and> MAX_TEXT sample_env < length (full_text sample_env long_message
       (fst (drafted sample_env long_message (msg_content long_message) fresh_world)))
   \<and> MAX_TEXT sample_env < length (full_text sample_env long_message
       (fst (drafted_prev sample_env long_message fresh_world)))
   \<and> cut_to 5 (fst (normalize_curr sample_env long_message ''hello world'' new_MsgNode fresh_world))
   \<and> cut_to 5 (fst (normalize_ref sample_env long_message new_MsgNode fresh_world))
   \<and> cut_to 5 (fst (normalize_prev sample_env long_message new_MsgNode fresh_world))"
  using long_text_is_cut_to_MAX_TEXT [of sample_env long_message "''hello world''" fresh_world new_MsgNode]
  by (simp add: sample_env_def long_message_def drafted_def drafted_prev_def good_attachments_def
      start_draft_def full_text_def)


subsection \<open>The first hook that claims an attachment ends the dispatch\<close>

lemma offer_declined:
  "list_all (\<lambda>p. declines (snd p att (LLM_ACCEPTS_IMAGES E) (Some m))) pre \<Longrightarrow>
   \<exists>s'. offer E att m (pre @ rest) (d, s) = offer E att m rest (d, s')
      \<and> invoked s' = invoked s @ map (\<lambda>p. (''process_attachment'', fst p)) pre"
proof (induction pre arbitrary: s)
  case Nil
  then show ?case by auto
next
  case (Cons p pre)
  from Cons.prems have rest: "list_all (\<lambda>p. declines (snd p att (LLM_ACCEPTS_IMAGES E) (Some m))) pre"
    and p: "declines (snd p att (LLM_ACCEPTS_IMAGES E) (Some m))" by simp_all
  from p obtain s1 where
    step: "offer E att m ((p # pre) @ rest) (d, s) = offer E att m (pre @ rest) (d, s1)"
    and inv: "invoked s1 = invoked s @ [(''process_attachment'', fst p)]"
    by (cases "snd p att (LLM_ACCEPTS_IMAGES E) (Some m)")
       (auto simp: declines_def call_def log_error_def split: option.splits)
  from Cons.IH [OF rest, of s1] obtain s' where
    "offer E att m (pre @ rest) (d, s1) = offer E att m rest (d, s')"
    "invoked s' = invoked s1 @ map (\<lambda>p. (''process_attachment'', fst p)) pre" by blast
  with step inv show ?case by auto
qed

lemma offer_claimed:
  assumes "snd h att (LLM_ACCEPTS_IMAGES E) (Some m) = Returns (Some res)" and "res \<noteq> []"
  shows "offer E att m (h # post) (d, s)
         = (True, claimed (LLM_ACCEPTS_IMAGES E) att res d, call ''process_attachment'' (fst h) s)"
  using assms by simp

lemma text_parts_claimed:
  "map_of res ''caption'' = Some (Some c) \<Longrightarrow> c \<noteq> [] \<Longrightarrow>
   text_parts (claimed b att res d) = text_parts d @ [''[Image description: '' @ c @ '']'']"
  by (simp add: claimed_def Let_def split: option.splits)

lemma offer_short_circuit:
  assumes "list_all (\<lambda>p. declines (snd p att (LLM_ACCEPTS_IMAGES E) (Some m))) pre"
    and "snd h att (LLM_ACCEPTS_IMAGES E) (Some m) = Returns (Some res)"
    and "map_of res ''caption'' = Some (Some c)" and "c \<noteq> []"
  shows "fst (offer E att m (pre @ h # post) (d, s))
    \<and> invoked (snd (snd (offer E att m (pre @ h # post) (d, s))))
        = invoked s @ map (\<lambda>p. (''process_attachment'', fst p)) (pre @ [h])
    \<and> text_parts (fst (snd (offer E att m (pre @ h # post) (d, s))))
        = text_parts d @ [''[Image description: '' @ c @ '']'']"
proof -
  from assms(3) have ne: "res \<noteq> []" by auto
  obtain s' where s': "offer E att m (pre @ h # post) (d, s) = offer E att m (h # post) (d, s')"
    "invoked s' = invoked s @ map (\<lambda>p. (''process_attachment'', fst p)) pre"
    using offer_declined [OF assms(1)] by blast
  show ?thesis
    unfolding s'(1) offer_claimed [OF assms(2) ne]
    using s'(2) text_parts_claimed [OF assms(3,4)] by (simp add: call_def)
qed

lemma text_parts_embed_raw: "text_parts (embed_raw E att d) = text_parts d"
  by (simp add: embed_raw_def)

lemma offer_prev_declined:
  "list_all (\<lambda>p. declines (snd p att (LLM_ACCEPTS_IMAGES E) None)) pre \<Longrightarrow>
   \<exists>d' s'. offer_prev E att (pre @ rest) (d, s) = offer_prev E att rest (d', s')
      \<and> text_parts d' = text_parts d
      \<and> invoked s' = invoked s @ map (\<lambda>p. (''process_attachment'', fst p)) pre"
proof (induction pre arbitrary: d s)
  case Nil
  then show ?case by auto
next
  case (Cons p pre)
  let ?d = "if LLM_ACCEPTS_IMAGES E then embed_raw E att d else d"
  from Cons.prems have rest: "list_all (\<lambda>p. declines (snd p att (LLM_ACCEPTS_IMAGES E) None)) pre"
    and p: "declines (snd p att (LLM_ACCEPTS_IMAGES E) None)" by simp_all
  have td: "text_parts ?d = text_parts d" by (simp add: text_parts_embed_raw)
  from p obtain s1 where step: "offer_prev E att ((p # pre) @ rest) (d, s) = offer_prev E att (pre @ rest) (?d, s1)"
    and inv: "invoked s1 = invoked s @ [(''process_attachment'', fst p)]"
    by (cases "snd p att (LLM_ACCEPTS_IMAGES E) None")
       (auto simp: declines_def call_def log_error_def split: option.splits)
  from Cons.IH [OF rest, of ?d s1] obtain d' s' where
    "offer_prev E att (pre @ rest) (?d, s1) = offer_prev E att rest (d', s')"
    "text_parts d' = text_parts ?d"
    "invoked s' = invoked s1 @ map (\<lambda>p. (''process_attachment'', fst p)) pre" by blast
  with step inv td show ?case by auto
qed

lemma offer_prev_short_circuit:
  assumes "list_all (\<lambda>p. declines (snd p att (LLM_ACCEPTS_IMAGES E) None)) pre"
    and "snd h att (LLM_ACCEPTS_IMAGES E) None = Returns (Some res)"
    and "map_of res ''caption'' = Some (Some c)" and "c \<noteq> []"
  shows "invoked (snd (offer_prev E att (pre @ h # post) (d, s)))
        = invoked s @ map (\<lambda>p. (''process_attachment'', fst p)) (pre @ [h])
    \<and> text_parts (fst (offer_prev E att (pre @ h # post) (d, s)))
        = text_parts d @ [''[Image description: '' @ c @ '']'']"
proof -
  from assms(3) have ne: "res \<noteq> []" by auto
  obtain d' s' where s': "offer_prev E att (pre @ h # post) (d, s) = offer_prev E att (h # post) (d', s')"
    "text_parts d' = text_parts d"
    "invoked s' = invoked s @ map (\<lambda>p. (''process_attachment'', fst p)) pre"
    using offer_prev_declined [OF assms(1)] by blast
  show ?thesis
    unfolding s'(1)
    using s'(2,3) assms(2) ne text_parts_claimed [OF assms(3,4)] by (simp add: call_def)
qed

lemma offer_past_declined:
  "list_all (\<lambda>p. declines (snd p att (LLM_ACCEPTS_IMAGES E) (Some m))) pre \<Longrightarrow>
   offer E att m (pre @ rest) (d, s) = offer E att m rest (d, snd (snd (offer E att m pre (d, s))))
   \<and> invoked (snd (snd (offer E att m pre (d, s))))
       = invoked s @ map (\<lambda>p. (''process_attachment'', fst p)) pre"
proof (induction pre arbitrary: s)
  case Nil
  then show ?case by simp
next
  case (Cons p pre)
  from Cons.prems have rest: "list_all (\<lambda>p. declines (snd p att (LLM_ACCEPTS_IMAGES E) (Some m))) pre"
    and p: "declines (snd p att (LLM_ACCEPTS_IMAGES E) (Some m))" by simp_all
  from p obtain s1 where
    step: "\<And>xs. offer E att m (p # xs) (d, s) = offer E att m xs (d, s1)"
    and inv: "invoked s1 = invoked s @ [(''process_attachment'', fst p)]"
    by (cases "snd p att (LLM_ACCEPTS_IMAGES E) (Some m)")
       (auto simp: declines_def call_def log_error_def split: option.splits)
  from Cons.IH [OF rest, of s1] step inv show ?case by simp
qed

lemma offer_prev_past_declined:
  "list_all (\<lambda>p. declines (snd p att (LLM_ACCEPTS_IMAGES E) None)) pre \<Longrightarrow>
   offer_prev E att (pre @ rest) (d, s) = offer_prev E att rest (offer_prev E att pre (d, s))
   \<and> text_parts (fst (offer_prev E att pre (d, s))) = text_parts d
   \<and> invoked (snd (offer_prev E att pre (d, s)))
       = invoked s @ map (\<lambda>p. (''process_attachment'', fst p)) pre"
proof (induction pre arbitrary: d s)
  case Nil
  then show ?case by simp
next
  case (Cons p pre)
  let ?d = "if LLM_ACCEPTS_IMAGES E then embed_raw E att d else d"
  from Cons.prems have rest: "list_all (\<lambda>p. declines (snd p att (LLM_ACCEPTS_IMAGES E) None)) pre"
    and p: "declines (snd p att (LLM_ACCEPTS_IMAGES E) None)" by simp_all
  have td: "text_parts ?d = text_parts d" by (simp add: text_parts_embed_raw)
  from p obtain s1 where
    step: "\<And>xs. offer_prev E att (p # xs) (d, s) = offer_prev E att xs (?d, s1)"
    and inv: "invoked s1 = invoked s @ [(''process_attachment'', fst p)]"
    by (cases "snd p att (LLM_ACCEPTS_IMAGES E) None")
       (auto simp: declines_def call_def log_error_def split: option.splits)
  from Cons.IH [OF rest, of ?d s1] step inv td show ?case by simp
qed

lemma offer_first_claim:
  assumes "list_all (\<lambda>p. declines (snd p att (LLM_ACCEPTS_IMAGES E) (Some m))) pre"
    and "snd h att (LLM_ACCEPTS_IMAGES E) (Some m) = Returns (Some res)" and "res \<noteq> []"
  shows "fst (offer E att m (pre @ h # post) (d, s))"
    and "offer E att m (pre @ h # post) (d, s) = offer E att m (pre @ [h]) (d, s)"
    and "invoked (snd (snd (offer E att m (pre @ h # post) (d, s))))
          = invoked s @ map (\<lambda>p. (''process_attachment'', fst p)) (pre @ [h])"
    and "map_of res ''caption'' = Some (Some c) \<Longrightarrow> c \<noteq> [] \<Longrightarrow>
         text_parts (fst (snd (offer E att m (pre @ h # post) (d, s))))
           = text_parts d @ [''[Image description: '' @ c @ '']'']"
proof -
  let ?s1 = "snd (snd (offer E att m pre (d, s)))"
  note past = offer_past_declined [OF assms(1)]
  have whole: "offer E att m (pre @ h # post) (d, s)
      = (True, claimed (LLM_ACCEPTS_IMAGES E) att res d, call ''process_attachment'' (fst h) ?s1)"
    using past [of "h # post" d s] offer_claimed [OF assms(2,3), of post d ?s1] by simp
  have short: "offer E att m (pre @ [h]) (d, s)
      = (True, claimed (LLM_ACCEPTS_IMAGES E) att res d, call ''process_attachment'' (fst h) ?s1)"
    using past [of "[h]" d s] offer_claimed [OF assms(2,3), of "[]" d ?s1] by simp
  show "fst (offer E att m (pre @ h # post) (d, s))" by (simp add: whole)
  show "offer E att m (pre @ h # post) (d, s) = offer E att m (pre @ [h]) (d, s)"
    by (simp add: whole short)
  show "invoked (snd (snd (offer E att m (pre @ h # post) (d, s))))
          = invoked s @ map (\<lambda>p. (''process_attachment'', fst p)) (pre @ [h])"
    using past [of "[]" d s] by (simp add: whole call_def)
  show "map_of res ''caption'' = Some (Some c) \<Longrightarrow> c \<noteq> [] \<Longrightarrow>
         text_parts (fst (snd (offer E att m (pre @ h # post) (d, s))))
           = text_parts d @ [''[Image description: '' @ c @ '']'']"
    by (simp add: whole text_parts_claimed)
qed

lemma offer_prev_first_claim:
  assumes "list_all (\<lambda>p. declines (snd p att (LLM_ACCEPTS_IMAGES E) None)) pre"
    and "snd h att (LLM_ACCEPTS_IMAGES E) None = Returns (Some res)" and "res \<noteq> []"
  shows "offer_prev E att (pre @ h # post) (d, s) = offer_prev E att (pre @ [h]) (d, s)"
    and "invoked (snd (offer_prev E att (pre @ h # post) (d, s)))
          = invoked s @ map (\<lambda>p. (''process_attachment'', fst p)) (pre @ [h])"
    and "map_of res ''caption'' = Some (Some c) \<Longrightarrow> c \<noteq> [] \<Longrightarrow>
         text_parts (fst (offer_prev E att (pre @ h # post) (d, s)))
           = text_parts d @ [''[Image description: '' @ c @ '']'']"
proof -
  obtain d1 s1 where 1: "offer_prev E att pre (d, s) = (d1, s1)"
    by (cases "offer_prev E att pre (d, s)")
  note past = offer_prev_past_declined [OF assms(1)]
  have td: "text_parts d1 = text_parts d"
    and inv: "invoked s1 = invoked s @ map (\<lambda>p. (''process_attachment'', fst p)) pre"
    using past [of "[]" d s] 1 by simp_all
  have claim: "offer_prev E att (h # xs) (d1, s1)
      = (claimed (LLM_ACCEPTS_IMAGES E) att res d1, call ''process_attachment'' (fst h) s1)" for xs
    using assms(2,3) by simp
  have whole: "offer_prev E att (pre @ h # post) (d, s)
      = (claimed (LLM_ACCEPTS_IMAGES E) att res d1, call ''process_attachment'' (fst h) s1)"
    using past [of "h # post" d s] 1 claim [of post] by simp
  have short: "offer_prev E att (pre @ [h]) (d, s)
      = (claimed (LLM_ACCEPTS_IMAGES E) att res d1, call ''process_attachment'' (fst h) s1)"
    using past [of "[h]" d s] 1 claim [of "[]"] by simp
  show "offer_prev E att (pre @ h # post) (d, s) = offer_prev E att (pre @ [h]) (d, s)"
    by (simp add: whole short)
  show "invoked (snd (offer_prev E att (pre @ h # post) (d, s)))
          = invoked s @ map (\<lambda>p. (''process_attachment'', fst p)) (pre @ [h])"
    by (simp add: whole call_def inv)
  show "map_of res ''caption'' = Some (Some c) \<Longrightarrow> c \<noteq> [] \<Longrightarrow>
         text_parts (fst (offer_prev E att (pre @ h # post) (d, s)))
           = text_parts d @ [''[Image description: '' @ c @ '']'']"
    by (simp add: whole text_parts_claimed td)
qed

text \<open>
  C9. Among the hooks registered for \<open>process_attachment\<close>, the first one whose result
  is not empty (any non-empty dict, with or without a caption) ends the dispatch for
  that attachment: the hooks before it (which declined or raised) and this hook are the
  only ones invoked, in this order, and the outcome is the same as if no hook were
  registered after it. When its result has a non-empty caption, that caption is appended
  to the text as \<open>[Image description: ...]\<close>. This holds where hooks are called with the
  message (current message, reply chain) and where they are called without it (channel
  history).
\<close>

theorem process_attachment_short_circuit:
  "(list_all (\<lambda>p. declines (snd p att (LLM_ACCEPTS_IMAGES E) (Some m))) pre
      \<and> snd h att (LLM_ACCEPTS_IMAGES E) (Some m) = Returns (Some res) \<and> res \<noteq> []
    \<longrightarrow> fst (offer E att m (pre @ h # post) (d, s))
      \<and> offer E att m (pre @ h # post) (d, s) = offer E att m (pre @ [h]) (d, s)
      \<and> invoked (snd (snd (offer E att m (pre @ h # post) (d, s))))
          = invoked s @ map (\<lambda>p. (''process_attachment'', fst p)) (pre @ [h])
      \<and> (map_of res ''caption'' = Some (Some c) \<and> c \<noteq> []
          \<longrightarrow> text_parts (fst (snd (offer E att m (pre @ h # post) (d, s))))
              = text_parts d @ [''[Image description: '' @ c @ '']'']))
   \<and> (list_all (\<lambda>p. declines (snd p att (LLM_ACCEPTS_IMAGES E) None)) pre
      \<and> snd h att (LLM_ACCEPTS_IMAGES E) None = Returns (Some res) \<and> res \<noteq> []
    \<longrightarrow> offer_prev E att (pre @ h # post) (d, s) = offer_prev E att (pre @ [h]) (d, s)
      \<and> invoked (snd (offer_prev E att (pre @ h # post) (d, s)))
          = invoked s @ map (\<lambda>p. (''process_attachment'', fst p)) (pre @ [h])
      \<and> (map_of res ''caption'' = Some (Some c) \<and> c \<noteq> []
          \<longrightarrow> text_parts (fst (offer_prev E att (pre @ h # post) (d, s)))
              = text_parts d @ [''[Image description: '' @ c @ '']'']))"
proof (intro conjI impI)
  assume a: "list_all (\<lambda>p. declines (snd p att (LLM_ACCEPTS_IMAGES E) (Some m))) pre
      \<and> snd h att (LLM_ACCEPTS_IMAGES E) (Some m) = Returns (Some res) \<and> res \<noteq> []"
  then have a1: "list_all (\<lambda>p. declines (snd p att (LLM_ACCEPTS_IMAGES E) (Some m))) pre"
    and a2: "snd h att (LLM_ACCEPTS_IMAGES E) (Some m) = Returns (Some res)" and a3: "res \<noteq> []"
    by simp_all
  show "fst (offer E att m (pre @ h # post) (d, s))"
    by (rule offer_first_claim(1) [OF a1 a2 a3])
  show "offer E att m (pre @ h # post) (d, s) = offer E att m (pre @ [h]) (d, s)"
    by (rule offer_first_claim(2) [OF a1 a2 a3])
  show "invoked (snd (snd (offer E att m (pre @ h # post) (d, s))))
          = invoked s @ map (\<lambda>p. (''process_attachment'', fst p)) (pre @ [h])"
    by (rule offer_first_claim(3) [OF a1 a2 a3])
  assume "map_of res ''caption'' = Some (Some c) \<and> c \<noteq> []"
  then show "text_parts (fst (snd (offer E att m (pre @ h # post) (d, s))))
              = text_parts d @ [''[Image description: '' @ c @ '']'']"
    using offer_first_claim(4) [OF a1 a2 a3] by simp
next
  assume a: "list_all (\<lambda>p. declines (snd p att (LLM_ACCEPTS_IMAGES E) None)) pre
      \<and> snd h att (LLM_ACCEPTS_IMAGES E) None = Returns (Some res) \<and> res \<noteq> []"
  then have a1: "list_all (\<lambda>p. declines (snd p att (LLM_ACCEPTS_IMAGES E) None)) pre"
    and a2: "snd h att (LLM_ACCEPTS_IMAGES E) None = Returns (Some res)" and a3: "res \<noteq> []"
    by simp_all
  show "offer_prev E att (pre @ h # post) (d, s) = offer_prev E att (pre @ [h]) (d, s)"
    by (rule offer_prev_first_claim(1) [OF a1 a2 a3])
  show "invoked (snd (offer_prev E att (pre @ h # post) (d, s)))
          = invoked s @ map (\<lambda>p. (''process_attachment'', fst p)) (pre @ [h])"
    by (rule offer_prev_first_claim(2) [OF a1 a2 a3])
  assume "map_of res ''caption'' = Some (Some c) \<and> c \<noteq> []"
  then show "text_parts (fst (offer_prev E att (pre @ h # post) (d, s)))
              = text_parts d @ [''[Image description: '' @ c @ '']'']"
    using offer_prev_first_claim(3) [OF a1 a2 a3] by simp
qed

theorem process_attachment_short_circuit_witness:
  "list_all (\<lambda>p. declines (snd p photo (LLM_ACCEPTS_IMAGES sample_env) (Some long_message)))
     [broken_hook, shy_hook]
   \<and> list_all (\<lambda>p. declines (snd p photo (LLM_ACCEPTS_IMAGES sample_env) None))
     [broken_hook, shy_hook]
   \<and> snd captioner photo (LLM_ACCEPTS_IMAGES sample_env) (Some long_message)
       = Returns (Some [(''caption'', Some ''a red car'')])
   \<and> snd captioner photo (LLM_ACCEPTS_IMAGES sample_env) None
       = Returns (Some [(''caption'', Some ''a red car'')])
   \<and> snd encoder photo (LLM_ACCEPTS_IMAGES sample_env) (Some long_message)
       = Returns (Some [(''image_data'', Some ''QUJD'')])
   \<and> snd encoder photo (LLM_ACCEPTS_IMAGES sample_env) None
       = Returns (Some [(''image_data'', Some ''QUJD'')])
   \<and> fst (offer sample_env photo long_message
        ([broken_hook, shy_hook] @ captioner # [other_captioner]) (start_draft ''look'', fresh_world))
   \<and> offer sample_env photo long_message
        ([broken_hook, shy_hook] @ captioner # [other_captioner]) (start_draft ''look'', fresh_world)
       = offer sample_env photo long_message
        ([broken_hook, shy_hook] @ [captioner]) (start_draft ''look'', fresh_world)
   \<and> invoked (snd (snd (offer sample_env photo long_message
        ([broken_hook, shy_hook] @ captioner # [other_captioner]) (start_draft ''look'', fresh_world))))
       = [(''process_attachment'', ''broken''), (''process_attachment'', ''shy''),
          (''process_attachment'', ''vision_caption'')]
   \<and> text_parts (fst (snd (offer sample_env photo long_message
        ([broken_hook, shy_hook] @ captioner # [other_captioner]) (start_draft ''look'', fresh_world))))
       = [''look'', ''[Image description: a red car]'']
   \<and> invoked (snd (offer_prev sample_env photo
        ([broken_hook, shy_hook] @ captioner # [other_captioner]) (start_draft ''look'', fresh_world)))
       = [(''process_attachment'', ''broken''), (''process_attachment'', ''shy''),
          (''process_attachment'', ''vision_caption'')]
   \<and> text_parts (fst (offer_prev sample_env photo
        ([broken_hook, shy_hook] @ captioner # [other_captioner]) (start_draft ''look'', fresh_world)))
       = [''look'', ''[Image description: a red car]'']
   \<and> invoked (snd (snd (offer sample_env photo long_message
        ([broken_hook, shy_hook] @ encoder # [other_captioner]) (start_draft ''look'', fresh_world))))
       = [(''process_attachment'', ''broken''), (''process_attachment'', ''shy''),
          (''process_attachment'', ''resizer'')]
   \<and> invoked (snd (offer_prev sample_env photo
        ([broken_hook, shy_hook] @ encoder # [other_captioner]) (start_draft ''look'', fresh_world)))
       = [(''process_attachment'', ''broken''), (''process_attachment'', ''shy''),
          (''process_attachment'', ''resizer'')]"
  using process_attachment_short_circuit [where att = photo and E = sample_env
      and m = long_message and pre = "[broken_hook, shy_hook]" and h = captioner
      and res = "[(''caption'', Some ''a red car'')]" and post = "[other_captioner]"
      and d = "start_draft ''look''" and s = fresh_world and c = "''a red car''"]
    process_attachment_short_circuit [where att = photo and E = sample_env
      and m = long_message and pre = "[broken_hook, shy_hook]" and h = encoder
      and res = "[(''image_data'', Some ''QUJD'')]" and post = "[other_captioner]"
      and d = "start_draft ''look''" and s = fresh_world and c = "''x''"]
  by (simp add: declines_def broken_hook_def shy_hook_def captioner_def encoder_def fresh_world_def
      start_draft_def)


subsection \<open>The fan-out of \<open>on_message_received\<close>\<close>

lemma received_effects:
  "\<exists>calls lines. snd (run_on_message_received hs m s)
       = s\<lparr>logged := logged s @ lines, invoked := invoked s @ calls\<rparr>
     \<and> list_all (\<lambda>c. fst c = ''on_message_received'') calls"
proof (induction hs arbitrary: s)
  case Nil
  have "snd (run_on_message_received [] m s) = s\<lparr>logged := logged s @ [], invoked := invoked s @ []\<rparr>
      \<and> list_all (\<lambda>c. fst c = ''on_message_received'') []" by simp
  then show ?case by blast
next
  case (Cons h hs)
  show ?case
  proof (cases "snd h m")
    case (Raises e)
    let ?s1 = "log_error (''Error in on_message_received hook: '' @ e) (call ''on_message_received'' (fst h) s)"
    from Cons.IH [of ?s1] obtain calls lines where
      "snd (run_on_message_received hs m ?s1) = ?s1\<lparr>logged := logged ?s1 @ lines, invoked := invoked ?s1 @ calls\<rparr>"
      "list_all (\<lambda>c. fst c = ''on_message_received'') calls" by blast
    then have "snd (run_on_message_received (h # hs) m s)
        = s\<lparr>logged := logged s @ ((''Error in on_message_received hook: '' @ e) # lines),
             invoked := invoked s @ ((''on_message_received'', fst h) # calls)\<rparr>
      \<and> list_all (\<lambda>c. fst c = ''on_message_received'') ((''on_message_received'', fst h) # calls)"
      using Raises by (simp add: call_def log_error_def)
    then show ?thesis by blast
  next
    case (Returns r)
    let ?s1 = "call ''on_message_received'' (fst h) s"
    show ?thesis
    proof (cases "r = Some False")
      case True
      then have "snd (run_on_message_received (h # hs) m s)
          = s\<lparr>logged := logged s @ [], invoked := invoked s @ [(''on_message_received'', fst h)]\<rparr>
        \<and> list_all (\<lambda>c. fst c = ''on_message_received'') [(''on_message_received'', fst h)]"
        using Returns by (simp add: call_def)
      then show ?thesis by blast
    next
      case False
      from Cons.IH [of ?s1] obtain calls lines where
        "snd (run_on_message_received hs m ?s1) = ?s1\<lparr>logged := logged ?s1 @ lines, invoked := invoked ?s1 @ calls\<rparr>"
        "list_all (\<lambda>c. fst c = ''on_message_received'') calls" by blast
      then have "snd (run_on_message_received (h # hs) m s)
          = s\<lparr>logged := logged s @ lines,
               invoked := invoked s @ ((''on_message_received'', fst h) # calls)\<rparr>
        \<and> list_all (\<lambda>c. fst c = ''on_message_received'') ((''on_message_received'', fst h) # calls)"
        using Returns False by (simp add: call_def)
      then show ?thesis by blast
    qed
  qed
qed

lemma received_untouched: "untouched s (snd (run_on_message_received hs m s))"
  using received_effects [of hs m s] by (auto simp: untouched_def)

lemma received_only_calls: "only_received_calls s (snd (run_on_message_received hs m s))"
  using received_effects [of hs m s] by (auto simp: only_received_calls_def)

lemma received_pass:
  "list_all (\<lambda>p. \<not> stops (snd p m)) pre \<Longrightarrow>
   \<exists>s'. run_on_message_received (pre @ rest) m s = run_on_message_received rest m s'
      \<and> invoked s' = invoked s @ map (\<lambda>p. (''on_message_received'', fst p)) pre"
proof (induction pre arbitrary: s)
  case Nil
  then show ?case by auto
next
  case (Cons p pre)
  from Cons.prems have rest: "list_all (\<lambda>p. \<not> stops (snd p m)) pre" and p: "\<not> stops (snd p m)"
    by simp_all
  from p obtain s1 where
    step: "run_on_message_received ((p # pre) @ rest) m s = run_on_message_received (pre @ rest) m s1"
    and inv: "invoked s1 = invoked s @ [(''on_message_received'', fst p)]"
    by (cases "snd p m") (auto simp: stops_def call_def log_error_def)
  from Cons.IH [OF rest, of s1] obtain s' where
    "run_on_message_received (pre @ rest) m s1 = run_on_message_received rest m s'"
    "invoked s' = invoked s1 @ map (\<lambda>p. (''on_message_received'', fst p)) pre" by blast
  with step inv show ?case by auto
qed

lemma received_all:
  assumes "list_all (\<lambda>p. \<not> stops (snd p m)) hs"
  shows "\<not> fst (run_on_message_received hs m s)
    \<and> invoked (snd (run_on_message_received hs m s))
        = invoked s @ map (\<lambda>p. (''on_message_received'', fst p)) hs"
  using received_pass [OF assms, of "[]" s] by auto

lemma received_stop:
  assumes "list_all (\<lambda>p. \<not> stops (snd p m)) pre" and "stops (snd h m)"
  shows "fst (run_on_message_received (pre @ h # post) m s)
    \<and> invoked (snd (run_on_message_received (pre @ h # post) m s))
        = invoked s @ map (\<lambda>p. (''on_message_received'', fst p)) (pre @ [h])"
proof -
  obtain s' where s': "run_on_message_received (pre @ h # post) m s = run_on_message_received (h # post) m s'"
    "invoked s' = invoked s @ map (\<lambda>p. (''on_message_received'', fst p)) pre"
    using received_pass [OF assms(1)] by blast
  show ?thesis unfolding s'(1) using s'(2) assms(2) by (simp add: stops_def call_def)
qed

lemma on_message_stopped:
  assumes "fst (run_on_message_received (on_message_received (hooks E)) m (s\<lparr>MESSAGE_COUNT := MESSAGE_COUNT s + 1\<rparr>))"
    and "msg_author m \<noteq> bot_id E"
  shows "is_Done (on_message E a m s) \<and> untouched s (final_world (on_message E a m s))"
proof -
  let ?s0 = "s\<lparr>MESSAGE_COUNT := MESSAGE_COUNT s + 1\<rparr>"
  obtain b s1 where r: "run_on_message_received (on_message_received (hooks E)) m ?s0 = (b, s1)"
    by (cases "run_on_message_received (on_message_received (hooks E)) m ?s0")
  with assms(1) have b by simp
  have "untouched ?s0 s1" using received_untouched [of ?s0 "on_message_received (hooks E)" m] r by simp
  then have "untouched s s1" by (simp add: untouched_def)
  then show ?thesis using assms(2) r \<open>b\<close> by (simp add: on_message_def)
qed

text \<open>
  C3, as the code has it. The hooks of \<open>on_message_received\<close> are invoked in registration
  order. When none of them returns \<open>False\<close> for the message, every one is invoked
  (whether it raises or returns) and processing goes on. When one returns \<open>False\<close>, the
  hooks before it and this hook are the only ones invoked: the loop is left at once, the
  hooks registered after it do not run, and \<open>on_message\<close> returns without touching a
  node, sending anything or calling the model.
\<close>

theorem on_message_received_stops_at_first_False:
  "(list_all (\<lambda>p. \<not> stops (snd p m)) hs
     \<longrightarrow> \<not> fst (run_on_message_received hs m s)
       \<and> invoked (snd (run_on_message_received hs m s))
           = invoked s @ map (\<lambda>p. (''on_message_received'', fst p)) hs)
   \<and> (list_all (\<lambda>p. \<not> stops (snd p m)) pre \<and> stops (snd h m)
     \<longrightarrow> fst (run_on_message_received (pre @ h # post) m s)
       \<and> invoked (snd (run_on_message_received (pre @ h # post) m s))
           = invoked s @ map (\<lambda>p. (''on_message_received'', fst p)) (pre @ [h]))
   \<and> (list_all (\<lambda>p. \<not> stops (snd p m)) pre \<and> stops (snd h m)
       \<and> on_message_received (hooks E) = pre @ h # post \<and> msg_author m \<noteq> bot_id E
     \<longrightarrow> is_Done (on_message E a m s) \<and> untouched s (final_world (on_message E a m s)))"
proof (intro conjI impI)
  assume "list_all (\<lambda>p. \<not> stops (snd p m)) hs"
  then show "\<not> fst (run_on_message_received hs m s)"
    and "invoked (snd (run_on_message_received hs m s))
           = invoked s @ map (\<lambda>p. (''on_message_received'', fst p)) hs"
    using received_all by blast+
next
  assume "list_all (\<lambda>p. \<not> stops (snd p m)) pre \<and> stops (snd h m)"
  then show "fst (run_on_message_received (pre @ h # post) m s)"
    and "invoked (snd (run_on_message_received (pre @ h # post) m s))
           = invoked s @ map (\<lambda>p. (''on_message_received'', fst p)) (pre @ [h])"
    using received_stop by blast+
next
  assume a: "list_all (\<lambda>p. \<not> stops (snd p m)) pre \<and> stops (snd h m)
       \<and> on_message_received (hooks E) = pre @ h # post \<and> msg_author m \<noteq> bot_id E"
  then have "fst (run_on_message_received (on_message_received (hooks E)) m (s\<lparr>MESSAGE_COUNT := MESSAGE_COUNT s + 1\<rparr>))"
    using received_stop [of m pre h post] by simp
  with a show "is_Done (on_message E a m s)"
    and "untouched s (final_world (on_message E a m s))"
    using on_message_stopped by blast+
qed


theorem on_message_received_stops_at_first_False_witness:
  "list_all (\<lambda>p. \<not> stops (snd p long_message)) [faulty, tracker]
   \<and> stops (snd stopper long_message)
   \<and> on_message_received (hooks (env_with_received [faulty, tracker, stopper, tracker]))
       = [faulty, tracker] @ stopper # [tracker]
   \<and> msg_author long_message \<noteq> bot_id (env_with_received [faulty, tracker, stopper, tracker])
   \<and> \<not> fst (run_on_message_received [faulty, tracker] long_message fresh_world)
   \<and> invoked (snd (run_on_message_received [faulty, tracker] long_message fresh_world))
       = [(''on_message_received'', ''whisper''), (''on_message_received'', ''memory'')]
   \<and> fst (run_on_message_received ([faulty, tracker] @ stopper # [tracker]) long_message fresh_world)
   \<and> invoked (snd (run_on_message_received ([faulty, tracker] @ stopper # [tracker])
        long_message fresh_world))
       = [(''on_message_received'', ''whisper''), (''on_message_received'', ''memory''),
          (''on_message_received'', ''facial_recognition'')]
   \<and> is_Done (on_message (env_with_received [faulty, tracker, stopper, tracker])
        sample_arrival long_message fresh_world)
   \<and> untouched fresh_world (final_world (on_message
        (env_with_received [faulty, tracker, stopper, tracker]) sample_arrival long_message fresh_world))"
  using on_message_received_stops_at_first_False [of long_message "[faulty, tracker]" fresh_world
      "[faulty, tracker]" stopper "[tracker]" "env_with_received [faulty, tracker, stopper, tracker]"
      sample_arrival]
  by (simp add: stops_def faulty_def tracker_def stopper_def env_with_received_def sample_env_def
      no_hooks_def long_message_def fresh_world_def)

text \<open>
  C3 as stated fails: with a hook that returns \<open>False\<close> registered before another hook,
  the second hook is registered but never invoked for the message.
\<close>

theorem hook_after_stop_is_not_invoked:
  "on_message_received (hooks (env_with_received [stopper, tracker])) = [stopper, tracker]
   \<and> invoked (final_world (on_message (env_with_received [stopper, tracker]) sample_arrival
        long_message fresh_world))
       = [(''on_message_received'', ''facial_recognition'')]"
  by (simp add: on_message_def env_with_received_def sample_env_def no_hooks_def long_message_def
      stopper_def tracker_def fresh_world_def call_def)


subsection \<open>Messages that start with two slashes\<close>

text \<open>
  C10. A message whose text starts with \<open>//\<close> is dropped after the fan-out of
  \<open>on_message_received\<close>: \<open>on_message\<close> returns, the node cache is as it was, nothing
  is sent, the model is not called, and no plugin callable other than the
  \<open>on_message_received\<close> hooks (no command, no attachment or model hook) is invoked.
\<close>

theorem double_slash_message_is_dropped:
  assumes "startswith (msg_content m) ''//''"
  shows "is_Done (on_message E a m s)
    \<and> untouched s (final_world (on_message E a m s))
    \<and> only_received_calls s (final_world (on_message E a m s))"
proof (cases "msg_author m = bot_id E")
  case True
  then show ?thesis by (simp add: on_message_def untouched_def only_received_calls_def)
next
  case False
  let ?s0 = "s\<lparr>MESSAGE_COUNT := MESSAGE_COUNT s + 1\<rparr>"
  obtain b s1 where r: "run_on_message_received (on_message_received (hooks E)) m ?s0 = (b, s1)"
    by (cases "run_on_message_received (on_message_received (hooks E)) m ?s0")
  have "untouched ?s0 s1" "only_received_calls ?s0 s1"
    using received_untouched [of ?s0 "on_message_received (hooks E)" m]
      received_only_calls [of ?s0 "on_message_received (hooks E)" m] r by simp_all
  then have "untouched s s1" "only_received_calls s s1"
    by (simp_all add: untouched_def only_received_calls_def)
  then show ?thesis using False r assms by (simp add: on_message_def)
qed

theorem double_slash_message_is_dropped_witness:
  "startswith (msg_content comment_message) ''//''
   \<and> on_message (env_with_received [faulty, tracker]) sample_arrival comment_message fresh_world
       = Done (fresh_world\<lparr>MESSAGE_COUNT := 1,
            logged := [''Error in on_message_received hook: no audio''],
            invoked := [(''on_message_received'', ''whisper''), (''on_message_received'', ''memory'')]\<rparr>)
   \<and> untouched fresh_world (final_world (on_message (env_with_received [faulty, tracker])
        sample_arrival comment_message fresh_world))
   \<and> only_received_calls fresh_world (final_world (on_message (env_with_received [faulty, tracker])
        sample_arrival comment_message fresh_world))"
  using double_slash_message_is_dropped [of comment_message "env_with_received [faulty, tracker]"
      sample_arrival fresh_world]
  by (simp add: on_message_def env_with_received_def sample_env_def no_hooks_def comment_message_def
      faulty_def tracker_def fresh_world_def call_def log_error_def startswith_def)


subsection \<open>A hook that raises counts as one that returned \<open>None\<close>\<close>

lemma unlogged_eq_iff:
  "unlogged s = unlogged s' \<longleftrightarrow>
     msg_nodes s = msg_nodes s' \<and> last_task_time s = last_task_time s'
     \<and> MESSAGE_COUNT s = MESSAGE_COUNT s' \<and> converse_state s = converse_state s'
     \<and> next_id s = next_id s' \<and> outbox s = outbox s' \<and> invoked s = invoked s'
     \<and> requests s = requests s' \<and> world.more s = world.more s'"
  by (cases s, cases s') (auto simp: unlogged_def)

lemma unlogged_call:
  "unlogged s = unlogged s' \<Longrightarrow> unlogged (call pt n s) = unlogged (call pt n s')"
  by (simp add: unlogged_eq_iff call_def)

lemma unlogged_log_error: "unlogged (log_error line s) = unlogged s"
  by (simp add: unlogged_eq_iff log_error_def)

lemma calm_ready_same:
  "unlogged s = unlogged s' \<Longrightarrow>
   unlogged (run_on_bot_ready hs s) = unlogged (run_on_bot_ready (calm_ready hs) s')"
proof (induction hs arbitrary: s s')
  case Nil
  then show ?case by (simp add: calm_ready_def)
next
  case (Cons h hs)
  have step: "calm_ready (h # hs) = (fst h, unit_if_raises (snd h)) # calm_ready hs"
    by (simp add: calm_ready_def)
  show ?case
    unfolding step
    by (cases "snd h")
       (auto simp: unit_if_raises_def intro!: Cons.IH unlogged_call [OF Cons.prems]
          simp: unlogged_log_error)
qed

lemma calm_received_same:
  "unlogged s = unlogged s' \<Longrightarrow>
   fst (run_on_message_received hs m s) = fst (run_on_message_received (calm_received hs) m s')
   \<and> unlogged (snd (run_on_message_received hs m s))
       = unlogged (snd (run_on_message_received (calm_received hs) m s'))"
proof (induction hs arbitrary: s s')
  case Nil
  then show ?case by (simp add: calm_received_def)
next
  case (Cons h hs)
  have step: "calm_received (h # hs) = (fst h, \<lambda>m. none_if_raises (snd h m)) # calm_received hs"
    by (simp add: calm_received_def)
  note c = unlogged_call [OF Cons.prems, of "''on_message_received''" "fst h"]
  show ?case
  proof (cases "snd h m")
    case (Raises e)
    then show ?thesis
      unfolding step using Cons.IH [of "log_error (''Error in on_message_received hook: '' @ e)
        (call ''on_message_received'' (fst h) s)" "call ''on_message_received'' (fst h) s'"] c
      by (simp add: none_if_raises_def unlogged_log_error)
  next
    case (Returns r)
    then show ?thesis
      unfolding step using Cons.IH [OF c] c by (simp add: none_if_raises_def)
  qed
qed

lemma calm_offer_same:
  "unlogged s = unlogged s' \<Longrightarrow>
   fst (offer E att m hs (d, s)) = fst (offer E att m (calm_attachment hs) (d, s'))
   \<and> fst (snd (offer E att m hs (d, s))) = fst (snd (offer E att m (calm_attachment hs) (d, s')))
   \<and> unlogged (snd (snd (offer E att m hs (d, s))))
       = unlogged (snd (snd (offer E att m (calm_attachment hs) (d, s'))))"
proof (induction hs arbitrary: s s')
  case Nil
  then show ?case by (simp add: calm_attachment_def)
next
  case (Cons h hs)
  have step: "calm_attachment (h # hs)
      = (fst h, \<lambda>att accepts m. none_if_raises (snd h att accepts m)) # calm_attachment hs"
    by (simp add: calm_attachment_def)
  note c = unlogged_call [OF Cons.prems, of "''process_attachment''" "fst h"]
  show ?case
  proof (cases "snd h att (LLM_ACCEPTS_IMAGES E) (Some m)")
    case (Raises e)
    then show ?thesis
      unfolding step using Cons.IH [of "log_error (''Error in process_attachment hook: '' @ e)
        (call ''process_attachment'' (fst h) s)" "call ''process_attachment'' (fst h) s'"] c
      by (simp add: none_if_raises_def unlogged_log_error)
  next
    case (Returns r)
    then show ?thesis
      unfolding step using Cons.IH [OF c] c
      by (simp add: none_if_raises_def split: option.splits)
  qed
qed

lemma calm_offer_prev_same:
  "unlogged s = unlogged s' \<Longrightarrow>
   fst (offer_prev E att hs (d, s)) = fst (offer_prev E att (calm_attachment hs) (d, s'))
   \<and> unlogged (snd (offer_prev E att hs (d, s)))
       = unlogged (snd (offer_prev E att (calm_attachment hs) (d, s')))"
proof (induction hs arbitrary: d s s')
  case Nil
  then show ?case by (simp add: calm_attachment_def)
next
  case (Cons h hs)
  have step: "calm_attachment (h # hs)
      = (fst h, \<lambda>att accepts m. none_if_raises (snd h att accepts m)) # calm_attachment hs"
    by (simp add: calm_attachment_def)
  note c = unlogged_call [OF Cons.prems, of "''process_attachment''" "fst h"]
  show ?case
  proof (cases "snd h att (LLM_ACCEPTS_IMAGES E) None")
    case (Raises e)
    then show ?thesis
      unfolding step using Cons.IH [of "log_error (''Error in process_attachment hook: '' @ e)
        (call ''process_attachment'' (fst h) s)" "call ''process_attachment'' (fst h) s'"] c
      by (simp add: none_if_raises_def unlogged_log_error)
  next
    case (Returns r)
    then show ?thesis
      unfolding step using Cons.IH [OF c] c
      by (simp add: none_if_raises_def split: option.splits)
  qed
qed

lemma calm_before_same:
  "unlogged s = unlogged s' \<Longrightarrow>
   fst (run_before_llm_call hs m (ms, s)) = fst (run_before_llm_call (calm_before hs) m (ms, s'))
   \<and> unlogged (snd (run_before_llm_call hs m (ms, s)))
       = unlogged (snd (run_before_llm_call (calm_before hs) m (ms, s')))"
proof (induction hs arbitrary: ms s s')
  case Nil
  then show ?case by (simp add: calm_before_def)
next
  case (Cons h hs)
  have step: "calm_before (h # hs) = (fst h, \<lambda>ms m. none_if_raises (snd h ms m)) # calm_before hs"
    by (simp add: calm_before_def)
  note c = unlogged_call [OF Cons.prems, of "''before_llm_call''" "fst h"]
  show ?case
  proof (cases "snd h ms m")
    case (Raises e)
    then show ?thesis
      unfolding step using Cons.IH [of "log_error (''Error in before_llm_call hook: '' @ e)
        (call ''before_llm_call'' (fst h) s)" "call ''before_llm_call'' (fst h) s'"] c
      by (simp add: none_if_raises_def unlogged_log_error)
  next
    case (Returns r)
    then show ?thesis
      unfolding step using Cons.IH [OF c] c by (simp add: none_if_raises_def)
  qed
qed

lemma calm_after_same:
  "unlogged s = unlogged s' \<Longrightarrow>
   unlogged (run_after_llm_response hs m t s)
     = unlogged (run_after_llm_response (calm_after hs) m t s')"
proof (induction hs arbitrary: s s')
  case Nil
  then show ?case by (simp add: calm_after_def)
next
  case (Cons h hs)
  have step: "calm_after (h # hs) = (fst h, \<lambda>m t. unit_if_raises (snd h m t)) # calm_after hs"
    by (simp add: calm_after_def)
  note c = unlogged_call [OF Cons.prems, of "''after_llm_response''" "fst h"]
  show ?case
  proof (cases "snd h m t")
    case (Raises e)
    then show ?thesis
      unfolding step using Cons.IH [of "log_error (''Error in after_llm_response hook: '' @ e)
        (call ''after_llm_response'' (fst h) s)" "call ''after_llm_response'' (fst h) s'"] c
      by (simp add: unit_if_raises_def unlogged_log_error)
  next
    case (Returns r)
    then show ?thesis
      unfolding step using Cons.IH [OF c] c by (simp add: unit_if_raises_def)
  qed
qed



subsection \<open>Every registered callable of a fan-out is invoked, and a raise is logged\<close>

lemma ready_effects:
  "invoked (run_on_bot_ready hs s) = invoked s @ map (\<lambda>p. (''on_bot_ready'', fst p)) hs
   \<and> logged (run_on_bot_ready hs s)
       = logged s @ concat (map (\<lambda>p. case snd p of Raises e \<Rightarrow> [''Error in on_bot_ready hook: '' @ e]
                                                 | Returns u \<Rightarrow> []) hs)"
proof (induction hs arbitrary: s)
  case Nil
  then show ?case by simp
next
  case (Cons h hs)
  then show ?case by (cases "snd h") (simp_all add: call_def log_error_def)
qed

lemma ready_logged:
  assumes "h \<in> set hs" and "snd h = Raises e"
  shows "''Error in on_bot_ready hook: '' @ e \<in> set (logged (run_on_bot_ready hs s))"
proof -
  have "''Error in on_bot_ready hook: '' @ e
      \<in> set (case snd h of Raises e \<Rightarrow> [''Error in on_bot_ready hook: '' @ e] | Returns u \<Rightarrow> [])"
    using assms(2) by simp
  then show ?thesis using assms(1) ready_effects [of hs s] by auto
qed

lemma after_effects:
  "invoked (run_after_llm_response hs m t s)
     = invoked s @ map (\<lambda>p. (''after_llm_response'', fst p)) hs
   \<and> logged (run_after_llm_response hs m t s)
       = logged s @ concat (map (\<lambda>p. case snd p m t of
                                        Raises e \<Rightarrow> [''Error in after_llm_response hook: '' @ e]
                                      | Returns u \<Rightarrow> []) hs)"
proof (induction hs arbitrary: s)
  case Nil
  then show ?case by simp
next
  case (Cons h hs)
  then show ?case by (cases "snd h m t") (simp_all add: call_def log_error_def)
qed

lemma after_logged:
  assumes "h \<in> set hs" and "snd h m t = Raises e"
  shows "''Error in after_llm_response hook: '' @ e \<in> set (logged (run_after_llm_response hs m t s))"
proof -
  have "''Error in after_llm_response hook: '' @ e
      \<in> set (case snd h m t of Raises e \<Rightarrow> [''Error in after_llm_response hook: '' @ e]
                              | Returns u \<Rightarrow> [])"
    using assms(2) by simp
  then show ?thesis using assms(1) after_effects [of hs m t s] by auto
qed

lemma before_invoked:
  "invoked (snd (run_before_llm_call hs m (ms, s)))
     = invoked s @ map (\<lambda>p. (''before_llm_call'', fst p)) hs"
proof (induction hs arbitrary: ms s)
  case Nil
  then show ?case by simp
next
  case (Cons h hs)
  then show ?case by (cases "snd h ms m") (simp_all add: call_def log_error_def)
qed

lemma before_log_grows:
  "\<exists>lines. logged (snd (run_before_llm_call hs m (ms, s))) = logged s @ lines"
proof (induction hs arbitrary: ms s)
  case Nil
  then show ?case by simp
next
  case (Cons h hs)
  show ?case
  proof (cases "snd h ms m")
    case (Raises e)
    then show ?thesis
      using Cons.IH [of ms "log_error (''Error in before_llm_call hook: '' @ e)
        (call ''before_llm_call'' (fst h) s)"]
      by (auto simp: call_def log_error_def)
  next
    case (Returns r)
    then show ?thesis
      using Cons.IH [of "case r of None \<Rightarrow> ms | Some ms' \<Rightarrow> if ms' \<noteq> [] then ms' else ms"
          "call ''before_llm_call'' (fst h) s"]
      by (auto simp: call_def)
  qed
qed

lemma before_append:
  "run_before_llm_call (xs @ ys) m (ms, s)
     = run_before_llm_call ys m (run_before_llm_call xs m (ms, s))"
proof (induction xs arbitrary: ms s)
  case Nil
  then show ?case by simp
next
  case (Cons h xs)
  then show ?case by (cases "snd h ms m") simp_all
qed

lemma before_logged:
  assumes "snd h (fst (run_before_llm_call pre m (ms, s))) m = Raises e"
  shows "''Error in before_llm_call hook: '' @ e
           \<in> set (logged (snd (run_before_llm_call (pre @ h # post) m (ms, s))))"
proof -
  obtain ms1 s1 where p: "run_before_llm_call pre m (ms, s) = (ms1, s1)"
    by (cases "run_before_llm_call pre m (ms, s)")
  let ?s2 = "log_error (''Error in before_llm_call hook: '' @ e) (call ''before_llm_call'' (fst h) s1)"
  from assms p have "run_before_llm_call (pre @ h # post) m (ms, s) = run_before_llm_call post m (ms1, ?s2)"
    by (simp add: before_append)
  moreover obtain lines where "logged (snd (run_before_llm_call post m (ms1, ?s2))) = logged ?s2 @ lines"
    using before_log_grows by blast
  ultimately show ?thesis by (simp add: log_error_def)
qed

lemma received_log_grows:
  "\<exists>lines. logged (snd (run_on_message_received hs m s)) = logged s @ lines"
  using received_effects [of hs m s] by auto

lemma received_logged:
  assumes "list_all (\<lambda>p. \<not> stops (snd p m)) pre" and "snd h m = Raises e"
  shows "''Error in on_message_received hook: '' @ e
           \<in> set (logged (snd (run_on_message_received (pre @ h # post) m s)))"
proof -
  obtain s1 where p: "run_on_message_received (pre @ h # post) m s = run_on_message_received (h # post) m s1"
    using received_pass [OF assms(1)] by blast
  let ?s2 = "log_error (''Error in on_message_received hook: '' @ e) (call ''on_message_received'' (fst h) s1)"
  obtain lines where "logged (snd (run_on_message_received post m ?s2)) = logged ?s2 @ lines"
    using received_log_grows by blast
  then show ?thesis unfolding p using assms(2) by (simp add: log_error_def)
qed

lemma offer_log_grows:
  "\<exists>lines. logged (snd (snd (offer E att m hs (d, s)))) = logged s @ lines"
proof (induction hs arbitrary: s)
  case Nil
  then show ?case by simp
next
  case (Cons h hs)
  show ?case
  proof (cases "snd h att (LLM_ACCEPTS_IMAGES E) (Some m)")
    case (Raises e)
    then show ?thesis
      using Cons.IH [of "log_error (''Error in process_attachment hook: '' @ e)
        (call ''process_attachment'' (fst h) s)"]
      by (auto simp: call_def log_error_def)
  next
    case (Returns r)
    then show ?thesis
      using Cons.IH [of "call ''process_attachment'' (fst h) s"]
      by (auto simp: call_def split: option.splits)
  qed
qed

lemma offer_logged:
  assumes "list_all (\<lambda>p. declines (snd p att (LLM_ACCEPTS_IMAGES E) (Some m))) pre"
    and "snd h att (LLM_ACCEPTS_IMAGES E) (Some m) = Raises e"
  shows "''Error in process_attachment hook: '' @ e
           \<in> set (logged (snd (snd (offer E att m (pre @ h # post) (d, s)))))"
proof -
  obtain s1 where p: "offer E att m (pre @ h # post) (d, s) = offer E att m (h # post) (d, s1)"
    using offer_declined [OF assms(1)] by blast
  let ?s2 = "log_error (''Error in process_attachment hook: '' @ e) (call ''process_attachment'' (fst h) s1)"
  obtain lines where "logged (snd (snd (offer E att m post (d, ?s2)))) = logged ?s2 @ lines"
    using offer_log_grows by blast
  then show ?thesis unfolding p using assms(2) by (simp add: log_error_def)
qed

lemma offer_prev_log_grows:
  "\<exists>lines. logged (snd (offer_prev E att hs (d, s))) = logged s @ lines"
proof (induction hs arbitrary: d s)
  case Nil
  then show ?case by simp
next
  case (Cons h hs)
  show ?case
  proof (cases "snd h att (LLM_ACCEPTS_IMAGES E) None")
    case (Raises e)
    then show ?thesis
      using Cons.IH [of "if LLM_ACCEPTS_IMAGES E then embed_raw E att d else d"
          "log_error (''Error in process_attachment hook: '' @ e) (call ''process_attachment'' (fst h) s)"]
      by (auto simp: call_def log_error_def)
  next
    case (Returns r)
    then show ?thesis
      using Cons.IH [of "if LLM_ACCEPTS_IMAGES E then embed_raw E att d else d"
          "call ''process_attachment'' (fst h) s"]
      by (auto simp: call_def split: option.splits)
  qed
qed

lemma offer_prev_logged:
  assumes "list_all (\<lambda>p. declines (snd p att (LLM_ACCEPTS_IMAGES E) None)) pre"
    and "snd h att (LLM_ACCEPTS_IMAGES E) None = Raises e"
  shows "''Error in process_attachment hook: '' @ e
           \<in> set (logged (snd (offer_prev E att (pre @ h # post) (d, s))))"
proof -
  obtain d1 s1 where p: "offer_prev E att (pre @ h # post) (d, s) = offer_prev E att (h # post) (d1, s1)"
    using offer_prev_declined [OF assms(1)] by blast
  let ?d2 = "if LLM_ACCEPTS_IMAGES E then embed_raw E att d1 else d1"
  let ?s2 = "log_error (''Error in process_attachment hook: '' @ e) (call ''process_attachment'' (fst h) s1)"
  obtain lines where "logged (snd (offer_prev E att post (?d2, ?s2))) = logged ?s2 @ lines"
    using offer_prev_log_grows by blast
  then show ?thesis unfolding p using assms(2) by (simp add: log_error_def)
qed


subsection \<open>Replacing the raising hooks changes nothing but the log\<close>

lemma calm_env_fields:
  "bot_id (calm_env E) = bot_id E"
  "system_prompt (calm_env E) = system_prompt E"
  "today (calm_env E) = today E"
  "MAX_TEXT (calm_env E) = MAX_TEXT E"
  "MAX_IMAGES (calm_env E) = MAX_IMAGES E"
  "MAX_MESSAGES (calm_env E) = MAX_MESSAGES E"
  "USE_PLAIN_RESPONSES (calm_env E) = USE_PLAIN_RESPONSES E"
  "LLM_ACCEPTS_IMAGES (calm_env E) = LLM_ACCEPTS_IMAGES E"
  "LLM_ACCEPTS_NAMES (calm_env E) = LLM_ACCEPTS_NAMES E"
  "ALLOWED_CHANNEL_IDS (calm_env E) = ALLOWED_CHANNEL_IDS E"
  "ALLOWED_ROLE_IDS (calm_env E) = ALLOWED_ROLE_IDS E"
  "OTHER_BOT_IDS (calm_env E) = OTHER_BOT_IDS E"
  "http_base64 (calm_env E) = http_base64 E"
  "http_text (calm_env E) = http_text E"
  "llm (calm_env E) = llm E"
  "notice_delivered (calm_env E) = notice_delivered E"
  "on_message_received (hooks (calm_env E)) = calm_received (on_message_received (hooks E))"
  "process_attachment (hooks (calm_env E)) = calm_attachment (process_attachment (hooks E))"
  "before_llm_call (hooks (calm_env E)) = calm_before (before_llm_call (hooks E))"
  "after_llm_response (hooks (calm_env E)) = calm_after (after_llm_response (hooks E))"
  by (simp_all add: calm_env_def)

lemma unlogged_nodes:
  "unlogged s = unlogged s' \<Longrightarrow> msg_nodes s = msg_nodes s'"
  by (simp add: unlogged_eq_iff)

lemma unlogged_set_nodes:
  "unlogged s = unlogged s' \<Longrightarrow> unlogged (s\<lparr>msg_nodes := ns\<rparr>) = unlogged (s'\<lparr>msg_nodes := ns\<rparr>)"
  by (simp add: unlogged_eq_iff)

lemma offer_calm_env: "offer (calm_env E) att m hs (d, s) = offer E att m hs (d, s)"
  by (induction hs arbitrary: s)
     (simp_all add: calm_env_fields split: result.splits option.splits)

lemma embed_raw_calm_env: "embed_raw (calm_env E) att d = embed_raw E att d"
  by (simp add: embed_raw_def calm_env_fields)

lemma offer_prev_calm_env: "offer_prev (calm_env E) att hs (d, s) = offer_prev E att hs (d, s)"
  by (induction hs arbitrary: d s)
     (simp_all add: calm_env_fields embed_raw_calm_env split: result.splits option.splits)

lemma assemble_calm_env: "assemble (calm_env E) m d = assemble E m d"
  by (simp add: assemble_def full_text_def calm_env_fields Let_def cong: if_cong)

lemma get_system_prompt_calm_env: "get_system_prompt (calm_env E) = get_system_prompt E"
  by (simp add: get_system_prompt_def calm_env_fields)

lemma request_messages_calm_env:
  "request_messages (calm_env E) h node = request_messages E h node"
  by (simp add: request_messages_def calm_env_fields get_system_prompt_calm_env)

lemma calm_image_attachment_same:
  assumes "unlogged s = unlogged s'"
  shows "fst (image_attachment E m att (d, s)) = fst (image_attachment (calm_env E) m att (d, s'))
    \<and> unlogged (snd (image_attachment E m att (d, s)))
        = unlogged (snd (image_attachment (calm_env E) m att (d, s')))"
  using calm_offer_same [OF assms, of E att m "process_attachment (hooks E)" d]
  by (auto simp: image_attachment_def calm_env_fields offer_calm_env embed_raw_calm_env
      split: prod.splits)

lemma calm_fold_same:
  assumes step: "\<And>x d s s'. unlogged s = unlogged s' \<Longrightarrow>
      fst (f x (d, s)) = fst (g x (d, s')) \<and> unlogged (snd (f x (d, s))) = unlogged (snd (g x (d, s')))"
    and "unlogged s = unlogged s'"
  shows "fst (fold f xs (d, s)) = fst (fold g xs (d, s'))
    \<and> unlogged (snd (fold f xs (d, s))) = unlogged (snd (fold g xs (d, s')))"
  using assms(2)
proof (induction xs arbitrary: d s s')
  case Nil
  then show ?case by simp
next
  case (Cons x xs)
  obtain d1 s1 where f: "f x (d, s) = (d1, s1)" by (cases "f x (d, s)")
  obtain d2 s2 where g: "g x (d, s') = (d2, s2)" by (cases "g x (d, s')")
  from step [OF Cons.prems, of x d] f g have "d1 = d2" and u: "unlogged s1 = unlogged s2" by simp_all
  with Cons.IH [OF u, of d1] f g show ?case by simp
qed

lemma calm_drafted_same:
  assumes "unlogged s = unlogged s'"
  shows "fst (drafted E m body s) = fst (drafted (calm_env E) m body s')
    \<and> unlogged (snd (drafted E m body s)) = unlogged (snd (drafted (calm_env E) m body s'))"
  unfolding drafted_def calm_env_fields(5)
  by (rule calm_fold_same [where f = "image_attachment E m" and g = "image_attachment (calm_env E) m",
        OF calm_image_attachment_same assms])

lemma calm_drafted_prev_same:
  assumes "unlogged s = unlogged s'"
  shows "fst (drafted_prev E m s) = fst (drafted_prev (calm_env E) m s')
    \<and> unlogged (snd (drafted_prev E m s)) = unlogged (snd (drafted_prev (calm_env E) m s'))"
proof -
  have step: "fst (offer_prev E att (process_attachment (hooks E)) (d, t))
        = fst (offer_prev (calm_env E) att (process_attachment (hooks (calm_env E))) (d, t'))
      \<and> unlogged (snd (offer_prev E att (process_attachment (hooks E)) (d, t)))
        = unlogged (snd (offer_prev (calm_env E) att (process_attachment (hooks (calm_env E))) (d, t')))"
    if "unlogged t = unlogged t'" for att d t t'
    using calm_offer_prev_same [OF that, of E att "process_attachment (hooks E)" d]
    by (simp add: calm_env_fields offer_prev_calm_env)
  show ?thesis
    unfolding drafted_prev_def calm_env_fields(5)
    by (rule calm_fold_same [where f = "\<lambda>att. offer_prev E att (process_attachment (hooks E))"
          and g = "\<lambda>att. offer_prev (calm_env E) att (process_attachment (hooks (calm_env E)))",
          OF step assms])
qed

lemma calm_normalize_ref_same:
  assumes "unlogged s = unlogged s'"
  shows "fst (normalize_ref E m node s) = fst (normalize_ref (calm_env E) m node s')
    \<and> unlogged (snd (normalize_ref E m node s)) = unlogged (snd (normalize_ref (calm_env E) m node s'))"
  using calm_drafted_same [OF assms, of E m "msg_content m"]
  by (auto simp: normalize_ref_def calm_env_fields assemble_calm_env split: prod.splits)

lemma calm_normalize_prev_same:
  assumes "unlogged s = unlogged s'"
  shows "fst (normalize_prev E m node s) = fst (normalize_prev (calm_env E) m node s')
    \<and> unlogged (snd (normalize_prev E m node s)) = unlogged (snd (normalize_prev (calm_env E) m node s'))"
  using calm_drafted_prev_same [OF assms, of E m]
  by (auto simp: normalize_prev_def calm_env_fields assemble_calm_env split: prod.splits)

lemma calm_normalize_curr_same:
  assumes "unlogged s = unlogged s'"
  shows "fst (normalize_curr E m body node s) = fst (normalize_curr (calm_env E) m body node s')
    \<and> fst (snd (normalize_curr E m body node s)) = fst (snd (normalize_curr (calm_env E) m body node s'))
    \<and> unlogged (snd (snd (normalize_curr E m body node s)))
        = unlogged (snd (snd (normalize_curr (calm_env E) m body node s')))"
  using calm_drafted_same [OF assms, of E m body]
  by (auto simp: normalize_curr_def Let_def calm_env_fields assemble_calm_env split: prod.splits)

lemma calm_visit_ref_same:
  assumes "unlogged s = unlogged s'"
  shows "fst (visit_ref E m (h, s)) = fst (visit_ref (calm_env E) m (h, s'))
    \<and> unlogged (snd (visit_ref E m (h, s))) = unlogged (snd (visit_ref (calm_env E) m (h, s')))"
proof -
  note n = unlogged_nodes [OF assms]
  obtain node ns where sd: "setdefault (msg_id m) new_MsgNode (msg_nodes s') = (node, ns)"
    by (cases "setdefault (msg_id m) new_MsgNode (msg_nodes s')")
  note u = unlogged_set_nodes [OF assms, of ns]
  obtain n1 s1 where a: "normalize_ref E m node (s\<lparr>msg_nodes := ns\<rparr>) = (n1, s1)"
    by (cases "normalize_ref E m node (s\<lparr>msg_nodes := ns\<rparr>)")
  obtain n2 s2 where b: "normalize_ref (calm_env E) m node (s'\<lparr>msg_nodes := ns\<rparr>) = (n2, s2)"
    by (cases "normalize_ref (calm_env E) m node (s'\<lparr>msg_nodes := ns\<rparr>)")
  from calm_normalize_ref_same [OF u, of E m node] a b
  have "n1 = n2" and u1: "unlogged s1 = unlogged s2" by simp_all
  have u2: "unlogged (s1\<lparr>msg_nodes := AList.update (msg_id m) n1 (msg_nodes s1)\<rparr>)
      = unlogged (s2\<lparr>msg_nodes := AList.update (msg_id m) n1 (msg_nodes s2)\<rparr>)"
    using u1 by (simp add: unlogged_eq_iff)
  show ?thesis
    using sd a b \<open>n1 = n2\<close> u u2
    by (simp add: visit_ref_def n split: option.splits)
qed

lemma calm_visit_prev_same:
  assumes "unlogged s = unlogged s'"
  shows "fst (visit_prev E m (h, s)) = fst (visit_prev (calm_env E) m (h, s'))
    \<and> unlogged (snd (visit_prev E m (h, s))) = unlogged (snd (visit_prev (calm_env E) m (h, s')))"
proof -
  note n = unlogged_nodes [OF assms]
  obtain node ns where sd: "setdefault (msg_id m) new_MsgNode (msg_nodes s') = (node, ns)"
    by (cases "setdefault (msg_id m) new_MsgNode (msg_nodes s')")
  note u = unlogged_set_nodes [OF assms, of ns]
  obtain n1 s1 where a: "normalize_prev E m node (s\<lparr>msg_nodes := ns\<rparr>) = (n1, s1)"
    by (cases "normalize_prev E m node (s\<lparr>msg_nodes := ns\<rparr>)")
  obtain n2 s2 where b: "normalize_prev (calm_env E) m node (s'\<lparr>msg_nodes := ns\<rparr>) = (n2, s2)"
    by (cases "normalize_prev (calm_env E) m node (s'\<lparr>msg_nodes := ns\<rparr>)")
  from calm_normalize_prev_same [OF u, of E m node] a b
  have "n1 = n2" and u1: "unlogged s1 = unlogged s2" by simp_all
  have u2: "unlogged (s1\<lparr>msg_nodes := AList.update (msg_id m) n1 (msg_nodes s1)\<rparr>)
      = unlogged (s2\<lparr>msg_nodes := AList.update (msg_id m) n1 (msg_nodes s2)\<rparr>)"
    using u1 by (simp add: unlogged_eq_iff)
  show ?thesis
    using sd a b \<open>n1 = n2\<close> u u2
    by (simp add: visit_prev_def n split: option.splits)
qed

lemma calm_follow_replies_same:
  "unlogged s = unlogged s' \<Longrightarrow>
   fst (follow_replies E m (h, s)) = fst (follow_replies (calm_env E) m (h, s'))
   \<and> unlogged (snd (follow_replies E m (h, s)))
       = unlogged (snd (follow_replies (calm_env E) m (h, s')))"
proof (induction m arbitrary: h s s')
  case (Message i a c atts es t r)
  show ?case
  proof (cases r)
    case None
    then show ?thesis using Message.prems by simp
  next
    case (Some o1)
    show ?thesis
    proof (cases o1)
      case None
      then show ?thesis using Some Message.prems by simp
    next
      case (Some ref_msg)
      obtain h1 s1 where a: "visit_ref E ref_msg (h, s) = (h1, s1)"
        by (cases "visit_ref E ref_msg (h, s)")
      obtain h2 s2 where b: "visit_ref (calm_env E) ref_msg (h, s') = (h2, s2)"
        by (cases "visit_ref (calm_env E) ref_msg (h, s')")
      from calm_visit_ref_same [OF Message.prems, of E ref_msg h] a b
      have "h1 = h2" and u: "unlogged s1 = unlogged s2" by simp_all
      have in1: "ref_msg \<in> set_option o1" using Some by simp
      have in2: "o1 \<in> set_option r" using \<open>r = Some o1\<close> by simp
      note IH = Message.IH [OF in2 in1 u]
      show ?thesis
        using IH [of h1] Some \<open>r = Some o1\<close> a b \<open>h1 = h2\<close> by simp
    qed
  qed
qed

lemma calm_scan_history_same:
  "unlogged s = unlogged s' \<Longrightarrow>
   fst (scan_history E m hist (h, s)) = fst (scan_history (calm_env E) m hist (h, s'))
   \<and> unlogged (snd (scan_history E m hist (h, s)))
       = unlogged (snd (scan_history (calm_env E) m hist (h, s')))"
proof (induction hist arbitrary: h s s')
  case Nil
  then show ?case by simp
next
  case (Cons p hist)
  obtain h1 s1 where a: "visit_prev E p (h, s) = (h1, s1)"
    by (cases "visit_prev E p (h, s)")
  obtain h2 s2 where b: "visit_prev (calm_env E) p (h, s') = (h2, s2)"
    by (cases "visit_prev (calm_env E) p (h, s')")
  from calm_visit_prev_same [OF Cons.prems, of E p h] a b
  have "h1 = h2" and u: "unlogged s1 = unlogged s2" by simp_all
  show ?case
    using Cons.IH [OF Cons.prems, of h] Cons.IH [OF u, of h1] Cons.prems a b \<open>h1 = h2\<close>
    by (simp add: calm_env_fields)
qed

lemma calm_build_history_same:
  assumes "unlogged s = unlogged s'"
  shows "fst (build_history E a m ig s) = fst (build_history (calm_env E) a m ig s')
    \<and> unlogged (snd (build_history E a m ig s))
        = unlogged (snd (build_history (calm_env E) a m ig s'))"
  using calm_follow_replies_same [OF assms, of E m "[]"]
    calm_scan_history_same [OF assms, of E m "take (MAX_MESSAGES E) (history a)" "[]"] assms
  by (auto simp: build_history_def calm_env_fields split: prod.splits)

lemma calm_current_turn_same:
  assumes "unlogged s = unlogged s'"
  shows "fst (current_turn E m body s) = fst (current_turn (calm_env E) m body s')
    \<and> fst (snd (current_turn E m body s)) = fst (snd (current_turn (calm_env E) m body s'))
    \<and> unlogged (snd (snd (current_turn E m body s)))
        = unlogged (snd (snd (current_turn (calm_env E) m body s')))"
proof -
  note n = unlogged_nodes [OF assms]
  obtain node ns where sd: "setdefault (msg_id m) new_MsgNode (msg_nodes s') = (node, ns)"
    by (cases "setdefault (msg_id m) new_MsgNode (msg_nodes s')")
  note u = unlogged_set_nodes [OF assms, of ns]
  obtain n1 w1 s1 where a: "normalize_curr E m body node (s\<lparr>msg_nodes := ns\<rparr>) = (n1, w1, s1)"
    by (cases "normalize_curr E m body node (s\<lparr>msg_nodes := ns\<rparr>)")
  obtain n2 w2 s2 where b: "normalize_curr (calm_env E) m body node (s'\<lparr>msg_nodes := ns\<rparr>) = (n2, w2, s2)"
    by (cases "normalize_curr (calm_env E) m body node (s'\<lparr>msg_nodes := ns\<rparr>)")
  from calm_normalize_curr_same [OF u, of E m body node] a b
  have "n1 = n2" and "w1 = w2" and u1: "unlogged s1 = unlogged s2" by simp_all
  have u2: "unlogged (s1\<lparr>msg_nodes := AList.update (msg_id m) n1 (msg_nodes s1)\<rparr>)
      = unlogged (s2\<lparr>msg_nodes := AList.update (msg_id m) n1 (msg_nodes s2)\<rparr>)"
    using u1 by (simp add: unlogged_eq_iff)
  show ?thesis
    using sd a b \<open>n1 = n2\<close> \<open>w1 = w2\<close> u u2
    by (simp add: current_turn_def n)
qed


subsection \<open>What makes \<open>on_message\<close> end by an exception\<close>

lemma run_command_Uncaught:
  "is_Uncaught (run_command E a m s) \<longleftrightarrow> split (drop 1 (msg_content m)) = []"
  by (simp add: run_command_def Let_def split: list.splits option.splits result.splits)

lemma reply_end_Uncaught:
  "is_Uncaught (case complete E m ws ms s of
                  Inl s4 \<Rightarrow> Uncaught ''HTTPException'' s4
                | Inr (r, s4) \<Rightarrow>
                    (case evict_oldest (msg_nodes s4) of
                       Swept ns \<Rightarrow> Done (s4\<lparr>msg_nodes := ns\<rparr>)
                     | Waiting victims ns \<Rightarrow> Suspended victims (s4\<lparr>msg_nodes := ns\<rparr>)))
   \<longleftrightarrow> snd (llm E ms) \<noteq> Exhausted \<and> \<not> notice_delivered E"
  by (simp add: complete_def split: ending.splits prod.splits sweep.splits)

lemma calm_reply_body_Uncaught:
  assumes "unlogged s = unlogged s'"
  shows "is_Uncaught
      (case build_history E a m c s of
         (conversation_history, s1) \<Rightarrow>
           (case current_turn E m body s1 of
              (curr_node, user_warnings, s2) \<Rightarrow>
                (case run_before_llm_call (before_llm_call (hooks E)) m
                        (request_messages E conversation_history curr_node, s2) of
                   (messages, s3) \<Rightarrow>
                     (case complete E m user_warnings messages s3 of
                        Inl s4 \<Rightarrow> Uncaught ''HTTPException'' s4
                      | Inr (r, s4) \<Rightarrow>
                          (case evict_oldest (msg_nodes s4) of
                             Swept ns \<Rightarrow> Done (s4\<lparr>msg_nodes := ns\<rparr>)
                           | Waiting victims ns \<Rightarrow> Suspended victims (s4\<lparr>msg_nodes := ns\<rparr>))))))
    = is_Uncaught
      (case build_history (calm_env E) a m c s' of
         (conversation_history, s1) \<Rightarrow>
           (case current_turn (calm_env E) m body s1 of
              (curr_node, user_warnings, s2) \<Rightarrow>
                (case run_before_llm_call (before_llm_call (hooks (calm_env E))) m
                        (request_messages (calm_env E) conversation_history curr_node, s2) of
                   (messages, s3) \<Rightarrow>
                     (case complete (calm_env E) m user_warnings messages s3 of
                        Inl s4 \<Rightarrow> Uncaught ''HTTPException'' s4
                      | Inr (r, s4) \<Rightarrow>
                          (case evict_oldest (msg_nodes s4) of
                             Swept ns \<Rightarrow> Done (s4\<lparr>msg_nodes := ns\<rparr>)
                           | Waiting victims ns \<Rightarrow> Suspended victims (s4\<lparr>msg_nodes := ns\<rparr>))))))"
proof -
  obtain h s1 where bh: "build_history E a m c s = (h, s1)"
    by (cases "build_history E a m c s")
  obtain h' s1' where bh': "build_history (calm_env E) a m c s' = (h', s1')"
    by (cases "build_history (calm_env E) a m c s'")
  from calm_build_history_same [OF assms, of E a m c] bh bh'
  have h: "h' = h" and u1: "unlogged s1 = unlogged s1'" by simp_all
  obtain node ws s2 where ct: "current_turn E m body s1 = (node, ws, s2)"
    by (cases "current_turn E m body s1")
  obtain node' ws' s2' where ct': "current_turn (calm_env E) m body s1' = (node', ws', s2')"
    by (cases "current_turn (calm_env E) m body s1'")
  from calm_current_turn_same [OF u1, of E m body] ct ct'
  have n: "node' = node" and w: "ws' = ws" and u2: "unlogged s2 = unlogged s2'" by simp_all
  obtain ms s3 where rb: "run_before_llm_call (before_llm_call (hooks E)) m
      (request_messages E h node, s2) = (ms, s3)"
    by (cases "run_before_llm_call (before_llm_call (hooks E)) m (request_messages E h node, s2)")
  obtain ms' s3' where rb': "run_before_llm_call (calm_before (before_llm_call (hooks E))) m
      (request_messages E h node, s2') = (ms', s3')"
    by (cases "run_before_llm_call (calm_before (before_llm_call (hooks E))) m
      (request_messages E h node, s2')")
  from calm_before_same [OF u2, of "before_llm_call (hooks E)" m "request_messages E h node"] rb rb'
  have m: "ms' = ms" by simp
  show ?thesis
    unfolding bh bh' h
    by (simp add: ct ct' n w rb rb' m calm_env_fields request_messages_calm_env reply_end_Uncaught)
qed

lemma calm_reply_Uncaught:
  assumes "unlogged s = unlogged s'"
  shows "is_Uncaught (reply E a m c s) = is_Uncaught (reply (calm_env E) a m c s')"
  unfolding reply_def Let_def by (rule calm_reply_body_Uncaught [OF assms])

lemma calm_respond_Uncaught:
  assumes "unlogged s = unlogged s'"
  shows "is_Uncaught (respond E a m s) = is_Uncaught (respond (calm_env E) a m s')"
proof -
  obtain b s1 where r: "reply_to_bot E m s = (b, s1)" by (cases "reply_to_bot E m s")
  obtain b' s1' where r': "reply_to_bot (calm_env E) m s' = (b', s1')"
    by (cases "reply_to_bot (calm_env E) m s'")
  from r r' assms have b: "b' = b" and u: "unlogged s1 = unlogged s1'"
    by (auto simp: reply_to_bot_def calm_env_fields unlogged_log_error log_error_def unlogged_eq_iff
        split: option.splits)
  from u have c: "converse_state s1' = converse_state s1" and k: "MESSAGE_COUNT s1' = MESSAGE_COUNT s1"
    by (simp_all add: unlogged_eq_iff)
  show ?thesis
    using calm_reply_Uncaught [OF u, of E a m]
    by (simp add: respond_def Let_def r r' b c k calm_env_fields split: option.splits)
qed

lemma calm_env_Uncaught:
  "is_Uncaught (on_message (calm_env E) a m s) = is_Uncaught (on_message E a m s)"
proof -
  let ?s0 = "s\<lparr>MESSAGE_COUNT := MESSAGE_COUNT s + 1\<rparr>"
  obtain b s1 where r: "run_on_message_received (on_message_received (hooks E)) m ?s0 = (b, s1)"
    by (cases "run_on_message_received (on_message_received (hooks E)) m ?s0")
  obtain b' s1' where r': "run_on_message_received (calm_received (on_message_received (hooks E))) m ?s0
      = (b', s1')"
    by (cases "run_on_message_received (calm_received (on_message_received (hooks E))) m ?s0")
  from calm_received_same [of ?s0 ?s0 "on_message_received (hooks E)" m] r r'
  have b: "b' = b" and u: "unlogged s1 = unlogged s1'" by simp_all
  show ?thesis
    unfolding on_message_def calm_env_fields r r' b
    using calm_respond_Uncaught [OF u, of E a m]
    by (simp add: run_command_Uncaught)
qed

subsection \<open>The dispatch goes on after a hook that raises\<close>

lemma first_of_rest: "prefix (take 1 xs) (takeWhile P xs @ take 1 (dropWhile P xs))"
  by (cases xs) auto

lemma received_invoked:
  "invoked (snd (run_on_message_received hs m s))
     = invoked s @ map (\<lambda>p. (''on_message_received'', fst p))
         (takeWhile (\<lambda>p. \<not> stops (snd p m)) hs @ take 1 (dropWhile (\<lambda>p. \<not> stops (snd p m)) hs))"
  by (induction hs arbitrary: s) (auto simp: stops_def call_def log_error_def split: result.splits)

lemma offer_invoked:
  "invoked (snd (snd (offer E att m hs (d, s))))
     = invoked s @ map (\<lambda>p. (''process_attachment'', fst p))
         (takeWhile (\<lambda>p. declines (snd p att (LLM_ACCEPTS_IMAGES E) (Some m))) hs
          @ take 1 (dropWhile (\<lambda>p. declines (snd p att (LLM_ACCEPTS_IMAGES E) (Some m))) hs))"
  by (induction hs arbitrary: s)
     (auto simp: declines_def call_def log_error_def split: result.splits option.splits)

lemma offer_prev_invoked:
  "invoked (snd (offer_prev E att hs (d, s)))
     = invoked s @ map (\<lambda>p. (''process_attachment'', fst p))
         (takeWhile (\<lambda>p. declines (snd p att (LLM_ACCEPTS_IMAGES E) None)) hs
          @ take 1 (dropWhile (\<lambda>p. declines (snd p att (LLM_ACCEPTS_IMAGES E) None)) hs))"
  by (induction hs arbitrary: d s)
     (auto simp: declines_def call_def log_error_def split: result.splits option.splits)

lemma received_continues:
  assumes "list_all (\<lambda>p. \<not> stops (snd p m)) pre" and "snd h m = Raises e"
  shows "\<exists>s'. run_on_message_received (pre @ h # post) m s = run_on_message_received post m s'
            \<and> invoked s' = invoked s @ map (\<lambda>p. (''on_message_received'', fst p)) (pre @ [h])"
    and "prefix (invoked s @ map (\<lambda>p. (''on_message_received'', fst p)) (pre @ h # take 1 post))
           (invoked (snd (run_on_message_received (pre @ h # post) m s)))"
    and "list_all (\<lambda>p. \<not> stops (snd p m)) post \<Longrightarrow>
         \<not> fst (run_on_message_received (pre @ h # post) m s)
         \<and> invoked (snd (run_on_message_received (pre @ h # post) m s))
             = invoked s @ map (\<lambda>p. (''on_message_received'', fst p)) (pre @ h # post)"
proof -
  have ph: "list_all (\<lambda>p. \<not> stops (snd p m)) (pre @ [h])"
    using assms by (simp add: stops_def)
  from received_pass [OF ph, of post s] obtain s' where
    s': "run_on_message_received (pre @ h # post) m s = run_on_message_received post m s'"
    "invoked s' = invoked s @ map (\<lambda>p. (''on_message_received'', fst p)) (pre @ [h])" by auto
  then show "\<exists>s'. run_on_message_received (pre @ h # post) m s = run_on_message_received post m s'
            \<and> invoked s' = invoked s @ map (\<lambda>p. (''on_message_received'', fst p)) (pre @ [h])" by blast
  have "prefix (map (\<lambda>p. (''on_message_received'', fst p)) (take 1 post))
      (map (\<lambda>p. (''on_message_received'', fst p)) (takeWhile (\<lambda>p. \<not> stops (snd p m)) post
         @ take 1 (dropWhile (\<lambda>p. \<not> stops (snd p m)) post)))"
    by (rule map_mono_prefix [OF first_of_rest])
  then show "prefix (invoked s @ map (\<lambda>p. (''on_message_received'', fst p)) (pre @ h # take 1 post))
           (invoked (snd (run_on_message_received (pre @ h # post) m s)))"
    unfolding s'(1) received_invoked [of post m s'] s'(2) by simp
  assume "list_all (\<lambda>p. \<not> stops (snd p m)) post"
  with ph have "list_all (\<lambda>p. \<not> stops (snd p m)) (pre @ h # post)" by simp
  from received_all [OF this, of s]
  show "\<not> fst (run_on_message_received (pre @ h # post) m s)
         \<and> invoked (snd (run_on_message_received (pre @ h # post) m s))
             = invoked s @ map (\<lambda>p. (''on_message_received'', fst p)) (pre @ h # post)" .
qed

lemma offer_continues:
  assumes "list_all (\<lambda>p. declines (snd p att (LLM_ACCEPTS_IMAGES E) (Some m))) pre"
    and "snd h att (LLM_ACCEPTS_IMAGES E) (Some m) = Raises e"
  shows "\<exists>s'. offer E att m (pre @ h # post) (d, s) = offer E att m post (d, s')
            \<and> invoked s' = invoked s @ map (\<lambda>p. (''process_attachment'', fst p)) (pre @ [h])"
    and "prefix (invoked s @ map (\<lambda>p. (''process_attachment'', fst p)) (pre @ h # take 1 post))
           (invoked (snd (snd (offer E att m (pre @ h # post) (d, s)))))"
    and "list_all (\<lambda>p. declines (snd p att (LLM_ACCEPTS_IMAGES E) (Some m))) post \<Longrightarrow>
         \<not> fst (offer E att m (pre @ h # post) (d, s))
         \<and> invoked (snd (snd (offer E att m (pre @ h # post) (d, s))))
             = invoked s @ map (\<lambda>p. (''process_attachment'', fst p)) (pre @ h # post)"
proof -
  have ph: "list_all (\<lambda>p. declines (snd p att (LLM_ACCEPTS_IMAGES E) (Some m))) (pre @ [h])"
    using assms by (simp add: declines_def)
  from offer_declined [OF ph, of post d s] obtain s' where
    s': "offer E att m (pre @ h # post) (d, s) = offer E att m post (d, s')"
    "invoked s' = invoked s @ map (\<lambda>p. (''process_attachment'', fst p)) (pre @ [h])" by auto
  then show "\<exists>s'. offer E att m (pre @ h # post) (d, s) = offer E att m post (d, s')
            \<and> invoked s' = invoked s @ map (\<lambda>p. (''process_attachment'', fst p)) (pre @ [h])" by blast
  have "prefix (map (\<lambda>p. (''process_attachment'', fst p)) (take 1 post))
      (map (\<lambda>p. (''process_attachment'', fst p)) (takeWhile (\<lambda>p. declines (snd p att (LLM_ACCEPTS_IMAGES E) (Some m))) post
         @ take 1 (dropWhile (\<lambda>p. declines (snd p att (LLM_ACCEPTS_IMAGES E) (Some m))) post)))"
    by (rule map_mono_prefix [OF first_of_rest])
  then show "prefix (invoked s @ map (\<lambda>p. (''process_attachment'', fst p)) (pre @ h # take 1 post))
           (invoked (snd (snd (offer E att m (pre @ h # post) (d, s)))))"
    unfolding s'(1) offer_invoked [of E att m post d s'] s'(2) by simp
  assume "list_all (\<lambda>p. declines (snd p att (LLM_ACCEPTS_IMAGES E) (Some m))) post"
  with ph have all: "list_all (\<lambda>p. declines (snd p att (LLM_ACCEPTS_IMAGES E) (Some m))) (pre @ h # post)"
    by simp
  from offer_declined [OF all, of "[]" d s]
  show "\<not> fst (offer E att m (pre @ h # post) (d, s))
         \<and> invoked (snd (snd (offer E att m (pre @ h # post) (d, s))))
             = invoked s @ map (\<lambda>p. (''process_attachment'', fst p)) (pre @ h # post)" by auto
qed

lemma offer_prev_continues:
  assumes "list_all (\<lambda>p. declines (snd p att (LLM_ACCEPTS_IMAGES E) None)) pre"
    and "snd h att (LLM_ACCEPTS_IMAGES E) None = Raises e"
  shows "\<exists>d' s'. offer_prev E att (pre @ h # post) (d, s) = offer_prev E att post (d', s')
            \<and> text_parts d' = text_parts d
            \<and> invoked s' = invoked s @ map (\<lambda>p. (''process_attachment'', fst p)) (pre @ [h])"
    and "prefix (invoked s @ map (\<lambda>p. (''process_attachment'', fst p)) (pre @ h # take 1 post))
           (invoked (snd (offer_prev E att (pre @ h # post) (d, s))))"
    and "list_all (\<lambda>p. declines (snd p att (LLM_ACCEPTS_IMAGES E) None)) post \<Longrightarrow>
         invoked (snd (offer_prev E att (pre @ h # post) (d, s)))
           = invoked s @ map (\<lambda>p. (''process_attachment'', fst p)) (pre @ h # post)"
proof -
  have ph: "list_all (\<lambda>p. declines (snd p att (LLM_ACCEPTS_IMAGES E) None)) (pre @ [h])"
    using assms by (simp add: declines_def)
  from offer_prev_declined [OF ph, of post d s] obtain d' s' where
    s': "offer_prev E att (pre @ h # post) (d, s) = offer_prev E att post (d', s')"
    "text_parts d' = text_parts d"
    "invoked s' = invoked s @ map (\<lambda>p. (''process_attachment'', fst p)) (pre @ [h])" by auto
  then show "\<exists>d' s'. offer_prev E att (pre @ h # post) (d, s) = offer_prev E att post (d', s')
            \<and> text_parts d' = text_parts d
            \<and> invoked s' = invoked s @ map (\<lambda>p. (''process_attachment'', fst p)) (pre @ [h])" by blast
  have "prefix (map (\<lambda>p. (''process_attachment'', fst p)) (take 1 post))
      (map (\<lambda>p. (''process_attachment'', fst p)) (takeWhile (\<lambda>p. declines (snd p att (LLM_ACCEPTS_IMAGES E) None)) post
         @ take 1 (dropWhile (\<lambda>p. declines (snd p att (LLM_ACCEPTS_IMAGES E) None)) post)))"
    by (rule map_mono_prefix [OF first_of_rest])
  then show "prefix (invoked s @ map (\<lambda>p. (''process_attachment'', fst p)) (pre @ h # take 1 post))
           (invoked (snd (offer_prev E att (pre @ h # post) (d, s))))"
    unfolding s'(1) offer_prev_invoked [of E att post d' s'] s'(3) by simp
  assume "list_all (\<lambda>p. declines (snd p att (LLM_ACCEPTS_IMAGES E) None)) post"
  with ph have all: "list_all (\<lambda>p. declines (snd p att (LLM_ACCEPTS_IMAGES E) None)) (pre @ h # post)"
    by simp
  from offer_prev_declined [OF all, of "[]" d s]
  show "invoked (snd (offer_prev E att (pre @ h # post) (d, s)))
           = invoked s @ map (\<lambda>p. (''process_attachment'', fst p)) (pre @ h # post)" by auto
qed

lemma dispatch_same_and_logged:
  "unlogged (run_on_bot_ready rs s) = unlogged (run_on_bot_ready (calm_ready rs) s)
   \<and> fst (run_on_message_received vs m s) = fst (run_on_message_received (calm_received vs) m s)
   \<and> unlogged (snd (run_on_message_received vs m s))
       = unlogged (snd (run_on_message_received (calm_received vs) m s))
   \<and> fst (offer E att m ps (d, s)) = fst (offer E att m (calm_attachment ps) (d, s))
   \<and> fst (snd (offer E att m ps (d, s))) = fst (snd (offer E att m (calm_attachment ps) (d, s)))
   \<and> unlogged (snd (snd (offer E att m ps (d, s))))
       = unlogged (snd (snd (offer E att m (calm_attachment ps) (d, s))))
   \<and> fst (offer_prev E att ps (d, s)) = fst (offer_prev E att (calm_attachment ps) (d, s))
   \<and> unlogged (snd (offer_prev E att ps (d, s)))
       = unlogged (snd (offer_prev E att (calm_attachment ps) (d, s)))
   \<and> fst (run_before_llm_call bs m (ms, s)) = fst (run_before_llm_call (calm_before bs) m (ms, s))
   \<and> unlogged (snd (run_before_llm_call bs m (ms, s)))
       = unlogged (snd (run_before_llm_call (calm_before bs) m (ms, s)))
   \<and> unlogged (run_after_llm_response as m t s)
       = unlogged (run_after_llm_response (calm_after as) m t s)
   \<and> invoked (run_on_bot_ready rs s) = invoked s @ map (\<lambda>p. (''on_bot_ready'', fst p)) rs
   \<and> invoked (snd (run_before_llm_call bs m (ms, s)))
       = invoked s @ map (\<lambda>p. (''before_llm_call'', fst p)) bs
   \<and> invoked (run_after_llm_response as m t s)
       = invoked s @ map (\<lambda>p. (''after_llm_response'', fst p)) as
   \<and> (r \<in> set rs \<and> snd r = Raises e1
      \<longrightarrow> ''Error in on_bot_ready hook: '' @ e1 \<in> set (logged (run_on_bot_ready rs s)))
   \<and> (list_all (\<lambda>p. \<not> stops (snd p m)) vpre \<and> snd v m = Raises e2
      \<longrightarrow> ''Error in on_message_received hook: '' @ e2
            \<in> set (logged (snd (run_on_message_received (vpre @ v # vpost) m s))))
   \<and> (list_all (\<lambda>p. declines (snd p att (LLM_ACCEPTS_IMAGES E) (Some m))) ppre
       \<and> snd p att (LLM_ACCEPTS_IMAGES E) (Some m) = Raises e3
      \<longrightarrow> ''Error in process_attachment hook: '' @ e3
            \<in> set (logged (snd (snd (offer E att m (ppre @ p # ppost) (d, s))))))
   \<and> (list_all (\<lambda>p. declines (snd p att (LLM_ACCEPTS_IMAGES E) None)) qpre
       \<and> snd q att (LLM_ACCEPTS_IMAGES E) None = Raises e4
      \<longrightarrow> ''Error in process_attachment hook: '' @ e4
            \<in> set (logged (snd (offer_prev E att (qpre @ q # qpost) (d, s)))))
   \<and> (snd b (fst (run_before_llm_call bpre m (ms, s))) m = Raises e5
      \<longrightarrow> ''Error in before_llm_call hook: '' @ e5
            \<in> set (logged (snd (run_before_llm_call (bpre @ b # bpost) m (ms, s)))))
   \<and> (a \<in> set as \<and> snd a m t = Raises e6
      \<longrightarrow> ''Error in after_llm_response hook: '' @ e6
            \<in> set (logged (run_after_llm_response as m t s)))"
  using calm_ready_same [of s s rs] calm_received_same [of s s vs m]
    calm_offer_same [of s s E att m ps d] calm_offer_prev_same [of s s E att ps d]
    calm_before_same [of s s bs m ms] calm_after_same [of s s as m t]
    ready_effects [of rs s] before_invoked [of bs m ms s] after_effects [of as m t s]
    ready_logged [of r rs e1 s] received_logged [of m vpre v e2 vpost s]
    offer_logged [of att E m ppre p e3 ppost d s] offer_prev_logged [of att E qpre q e4 qpost d s]
    before_logged [of b bpre m ms s e5 bpost] after_logged [of a as m t e6 s]
  by blast

text \<open>
  C7. At every extension point a callable that raises is logged and otherwise counts
  as one that returned \<open>None\<close>: with every raising callable replaced by one that returns
  \<open>None\<close>, each dispatch loop invokes the same callables in the same order and leaves
  the same results and the same state, the log aside. A raise met by a loop leaves its
  line in the log. The fan-outs \<open>on_bot_ready\<close>, \<open>before_llm_call\<close> and
  \<open>after_llm_response\<close> invoke every registered callable in registration order. In the
  loops that can end early, \<open>on_message_received\<close> and \<open>process_attachment\<close> (with and
  without the message), the dispatch goes on after a callable that raised: the loop
  continues with the callables registered after it, the first of them is invoked, and
  all of them are when none of them ends the loop. And whether \<open>on_message\<close> ends by an
  exception does not depend on any hook raising.
\<close>

theorem raising_hook_is_logged_and_skipped:
  "unlogged (run_on_bot_ready rs s) = unlogged (run_on_bot_ready (calm_ready rs) s)
   \<and> fst (run_on_message_received vs m s) = fst (run_on_message_received (calm_received vs) m s)
   \<and> unlogged (snd (run_on_message_received vs m s))
       = unlogged (snd (run_on_message_received (calm_received vs) m s))
   \<and> fst (offer E att m ps (d, s)) = fst (offer E att m (calm_attachment ps) (d, s))
   \<and> fst (snd (offer E att m ps (d, s))) = fst (snd (offer E att m (calm_attachment ps) (d, s)))
   \<and> unlogged (snd (snd (offer E att m ps (d, s))))
       = unlogged (snd (snd (offer E att m (calm_attachment ps) (d, s))))
   \<and> fst (offer_prev E att ps (d, s)) = fst (offer_prev E att (calm_attachment ps) (d, s))
   \<and> unlogged (snd (offer_prev E att ps (d, s)))
       = unlogged (snd (offer_prev E att (calm_attachment ps) (d, s)))
   \<and> fst (run_before_llm_call bs m (ms, s)) = fst (run_before_llm_call (calm_before bs) m (ms, s))
   \<and> unlogged (snd (run_before_llm_call bs m (ms, s)))
       = unlogged (snd (run_before_llm_call (calm_before bs) m (ms, s)))
   \<and> unlogged (run_after_llm_response as m t s)
       = unlogged (run_after_llm_response (calm_after as) m t s)
   \<and> invoked (run_on_bot_ready rs s) = invoked s @ map (\<lambda>p. (''on_bot_ready'', fst p)) rs
   \<and> invoked (snd (run_before_llm_call bs m (ms, s)))
       = invoked s @ map (\<lambda>p. (''before_llm_call'', fst p)) bs
   \<and> invoked (run_after_llm_response as m t s)
       = invoked s @ map (\<lambda>p. (''after_llm_response'', fst p)) as
   \<and> (r \<in> set rs \<and> snd r = Raises e1
      \<longrightarrow> ''Error in on_bot_ready hook: '' @ e1 \<in> set (logged (run_on_bot_ready rs s)))
   \<and> (list_all (\<lambda>p. \<not> stops (snd p m)) vpre \<and> snd v m = Raises e2
      \<longrightarrow> ''Error in on_message_received hook: '' @ e2
            \<in> set (logged (snd (run_on_message_received (vpre @ v # vpost) m s))))
   \<and> (list_all (\<lambda>p. declines (snd p att (LLM_ACCEPTS_IMAGES E) (Some m))) ppre
       \<and> snd p att (LLM_ACCEPTS_IMAGES E) (Some m) = Raises e3
      \<longrightarrow> ''Error in process_attachment hook: '' @ e3
            \<in> set (logged (snd (snd (offer E att m (ppre @ p # ppost) (d, s))))))
   \<and> (list_all (\<lambda>p. declines (snd p att (LLM_ACCEPTS_IMAGES E) None)) qpre
       \<and> snd q att (LLM_ACCEPTS_IMAGES E) None = Raises e4
      \<longrightarrow> ''Error in process_attachment hook: '' @ e4
            \<in> set (logged (snd (offer_prev E att (qpre @ q # qpost) (d, s)))))
   \<and> (snd b (fst (run_before_llm_call bpre m (ms, s))) m = Raises e5
      \<longrightarrow> ''Error in before_llm_call hook: '' @ e5
            \<in> set (logged (snd (run_before_llm_call (bpre @ b # bpost) m (ms, s)))))
   \<and> (a \<in> set as \<and> snd a m t = Raises e6
      \<longrightarrow> ''Error in after_llm_response hook: '' @ e6
            \<in> set (logged (run_after_llm_response as m t s)))
   \<and> (list_all (\<lambda>p. \<not> stops (snd p m)) vpre \<and> snd v m = Raises e2
      \<longrightarrow> (\<exists>s'. run_on_message_received (vpre @ v # vpost) m s = run_on_message_received vpost m s'
                \<and> invoked s' = invoked s @ map (\<lambda>p. (''on_message_received'', fst p)) (vpre @ [v]))
        \<and> prefix (invoked s @ map (\<lambda>p. (''on_message_received'', fst p)) (vpre @ v # take 1 vpost))
             (invoked (snd (run_on_message_received (vpre @ v # vpost) m s)))
        \<and> (list_all (\<lambda>p. \<not> stops (snd p m)) vpost
            \<longrightarrow> \<not> fst (run_on_message_received (vpre @ v # vpost) m s)
              \<and> invoked (snd (run_on_message_received (vpre @ v # vpost) m s))
                  = invoked s @ map (\<lambda>p. (''on_message_received'', fst p)) (vpre @ v # vpost)))
   \<and> (list_all (\<lambda>p. declines (snd p att (LLM_ACCEPTS_IMAGES E) (Some m))) ppre
       \<and> snd p att (LLM_ACCEPTS_IMAGES E) (Some m) = Raises e3
      \<longrightarrow> (\<exists>s'. offer E att m (ppre @ p # ppost) (d, s) = offer E att m ppost (d, s')
                \<and> invoked s' = invoked s @ map (\<lambda>p. (''process_attachment'', fst p)) (ppre @ [p]))
        \<and> prefix (invoked s @ map (\<lambda>p. (''process_attachment'', fst p)) (ppre @ p # take 1 ppost))
             (invoked (snd (snd (offer E att m (ppre @ p # ppost) (d, s)))))
        \<and> (list_all (\<lambda>p. declines (snd p att (LLM_ACCEPTS_IMAGES E) (Some m))) ppost
            \<longrightarrow> \<not> fst (offer E att m (ppre @ p # ppost) (d, s))
              \<and> invoked (snd (snd (offer E att m (ppre @ p # ppost) (d, s))))
                  = invoked s @ map (\<lambda>p. (''process_attachment'', fst p)) (ppre @ p # ppost)))
   \<and> (list_all (\<lambda>p. declines (snd p att (LLM_ACCEPTS_IMAGES E) None)) qpre
       \<and> snd q att (LLM_ACCEPTS_IMAGES E) None = Raises e4
      \<longrightarrow> (\<exists>d' s'. offer_prev E att (qpre @ q # qpost) (d, s) = offer_prev E att qpost (d', s')
                \<and> text_parts d' = text_parts d
                \<and> invoked s' = invoked s @ map (\<lambda>p. (''process_attachment'', fst p)) (qpre @ [q]))
        \<and> prefix (invoked s @ map (\<lambda>p. (''process_attachment'', fst p)) (qpre @ q # take 1 qpost))
             (invoked (snd (offer_prev E att (qpre @ q # qpost) (d, s))))
        \<and> (list_all (\<lambda>p. declines (snd p att (LLM_ACCEPTS_IMAGES E) None)) qpost
            \<longrightarrow> invoked (snd (offer_prev E att (qpre @ q # qpost) (d, s)))
                  = invoked s @ map (\<lambda>p. (''process_attachment'', fst p)) (qpre @ q # qpost)))
   \<and> is_Uncaught (on_message (calm_env E) arr m s) = is_Uncaught (on_message E arr m s)"
proof -
  note same = dispatch_same_and_logged [where rs = rs and s = s and vs = vs and m = m and E = E
      and att = att and ps = ps and d = d and bs = bs and ms = ms and as = as and t = t
      and r = r and ?e1.0 = e1 and vpre = vpre and v = v and ?e2.0 = e2 and vpost = vpost
      and ppre = ppre and p = p and ?e3.0 = e3 and ppost = ppost and qpre = qpre and q = q
      and ?e4.0 = e4 and qpost = qpost and b = b and bpre = bpre and ?e5.0 = e5 and bpost = bpost
      and a = a and ?e6.0 = e6]
  note rc1 = received_continues(1) [where m = m and pre = vpre and h = v and e = e2
      and post = vpost and s = s]
  note rc2 = received_continues(2) [where m = m and pre = vpre and h = v and e = e2
      and post = vpost and s = s]
  note rc3 = received_continues(3) [where m = m and pre = vpre and h = v and e = e2
      and post = vpost and s = s]
  note oc1 = offer_continues(1) [where att = att and E = E and m = m and pre = ppre and h = p
      and e = e3 and post = ppost and d = d and s = s]
  note oc2 = offer_continues(2) [where att = att and E = E and m = m and pre = ppre and h = p
      and e = e3 and post = ppost and d = d and s = s]
  note oc3 = offer_continues(3) [where att = att and E = E and m = m and pre = ppre and h = p
      and e = e3 and post = ppost and d = d and s = s]
  note qc1 = offer_prev_continues(1) [where att = att and E = E and pre = qpre and h = q
      and e = e4 and post = qpost and d = d and s = s]
  note qc2 = offer_prev_continues(2) [where att = att and E = E and pre = qpre and h = q
      and e = e4 and post = qpost and d = d and s = s]
  note qc3 = offer_prev_continues(3) [where att = att and E = E and pre = qpre and h = q
      and e = e4 and post = qpost and d = d and s = s]
  note un = calm_env_Uncaught [of E arr m s]
  have received: "list_all (\<lambda>p. \<not> stops (snd p m)) vpre \<and> snd v m = Raises e2
      \<longrightarrow> (\<exists>s'. run_on_message_received (vpre @ v # vpost) m s = run_on_message_received vpost m s'
                \<and> invoked s' = invoked s @ map (\<lambda>p. (''on_message_received'', fst p)) (vpre @ [v]))
        \<and> prefix (invoked s @ map (\<lambda>p. (''on_message_received'', fst p)) (vpre @ v # take 1 vpost))
             (invoked (snd (run_on_message_received (vpre @ v # vpost) m s)))
        \<and> (list_all (\<lambda>p. \<not> stops (snd p m)) vpost
            \<longrightarrow> \<not> fst (run_on_message_received (vpre @ v # vpost) m s)
              \<and> invoked (snd (run_on_message_received (vpre @ v # vpost) m s))
                  = invoked s @ map (\<lambda>p. (''on_message_received'', fst p)) (vpre @ v # vpost))"
    using rc1 rc2 rc3 by blast
  have offered: "list_all (\<lambda>p. declines (snd p att (LLM_ACCEPTS_IMAGES E) (Some m))) ppre
       \<and> snd p att (LLM_ACCEPTS_IMAGES E) (Some m) = Raises e3
      \<longrightarrow> (\<exists>s'. offer E att m (ppre @ p # ppost) (d, s) = offer E att m ppost (d, s')
                \<and> invoked s' = invoked s @ map (\<lambda>p. (''process_attachment'', fst p)) (ppre @ [p]))
        \<and> prefix (invoked s @ map (\<lambda>p. (''process_attachment'', fst p)) (ppre @ p # take 1 ppost))
             (invoked (snd (snd (offer E att m (ppre @ p # ppost) (d, s)))))
        \<and> (list_all (\<lambda>p. declines (snd p att (LLM_ACCEPTS_IMAGES E) (Some m))) ppost
            \<longrightarrow> \<not> fst (offer E att m (ppre @ p # ppost) (d, s))
              \<and> invoked (snd (snd (offer E att m (ppre @ p # ppost) (d, s))))
                  = invoked s @ map (\<lambda>p. (''process_attachment'', fst p)) (ppre @ p # ppost))"
    using oc1 oc2 oc3 by blast
  have offered_prev: "list_all (\<lambda>p. declines (snd p att (LLM_ACCEPTS_IMAGES E) None)) qpre
       \<and> snd q att (LLM_ACCEPTS_IMAGES E) None = Raises e4
      \<longrightarrow> (\<exists>d' s'. offer_prev E att (qpre @ q # qpost) (d, s) = offer_prev E att qpost (d', s')
                \<and> text_parts d' = text_parts d
                \<and> invoked s' = invoked s @ map (\<lambda>p. (''process_attachment'', fst p)) (qpre @ [q]))
        \<and> prefix (invoked s @ map (\<lambda>p. (''process_attachment'', fst p)) (qpre @ q # take 1 qpost))
             (invoked (snd (offer_prev E att (qpre @ q # qpost) (d, s))))
        \<and> (list_all (\<lambda>p. declines (snd p att (LLM_ACCEPTS_IMAGES E) None)) qpost
            \<longrightarrow> invoked (snd (offer_prev E att (qpre @ q # qpost) (d, s)))
                  = invoked s @ map (\<lambda>p. (''process_attachment'', fst p)) (qpre @ q # qpost))"
    using qc1 qc2 qc3 by blast
  show ?thesis
    apply (insert same received offered offered_prev un)
    apply (elim conjE)
    apply (intro conjI)
    apply assumption+
    done
qed


theorem raising_hook_is_logged_and_skipped_witness:
  "(''voice_tts'', Raises ''no ffmpeg'') \<in> set sample_ready
   \<and> list_all (\<lambda>p. \<not> stops (snd p long_message)) [tracker]
   \<and> snd faulty long_message = Raises ''no audio''
   \<and> list_all (\<lambda>p. declines (snd p photo (LLM_ACCEPTS_IMAGES sample_env) (Some long_message))) [shy_hook]
   \<and> list_all (\<lambda>p. declines (snd p photo (LLM_ACCEPTS_IMAGES sample_env) None)) [shy_hook]
   \<and> snd broken_hook photo (LLM_ACCEPTS_IMAGES sample_env) (Some long_message) = Raises ''boom''
   \<and> snd (sample_before ! 1) (fst (run_before_llm_call [sample_before ! 0] long_message
         ([get_system_prompt sample_env], fresh_world))) long_message = Raises ''bad json''
   \<and> (''voice_tts'', \<lambda>m t. Raises ''no voice'') \<in> set sample_after
   \<and> logged (run_on_bot_ready sample_ready fresh_world) = [''Error in on_bot_ready hook: no ffmpeg'']
   \<and> invoked (run_on_bot_ready sample_ready fresh_world)
       = [(''on_bot_ready'', ''memory''), (''on_bot_ready'', ''voice_tts''), (''on_bot_ready'', ''whisper'')]
   \<and> ''Error in on_message_received hook: no audio''
       \<in> set (logged (snd (run_on_message_received ([tracker] @ faulty # [tracker]) long_message fresh_world)))
   \<and> ''Error in process_attachment hook: boom''
       \<in> set (logged (snd (snd (offer sample_env photo long_message ([shy_hook] @ broken_hook # [captioner])
             (start_draft ''look'', fresh_world)))))
   \<and> ''Error in process_attachment hook: boom''
       \<in> set (logged (snd (offer_prev sample_env photo ([shy_hook] @ broken_hook # [captioner])
             (start_draft ''look'', fresh_world))))
   \<and> ''Error in before_llm_call hook: bad json''
       \<in> set (logged (snd (run_before_llm_call ([sample_before ! 0] @ sample_before ! 1 # [sample_before ! 2])
             long_message ([get_system_prompt sample_env], fresh_world))))
   \<and> invoked (snd (run_before_llm_call sample_before long_message
         ([get_system_prompt sample_env], fresh_world)))
       = [(''before_llm_call'', ''memory''), (''before_llm_call'', ''rewrite''),
          (''before_llm_call'', ''template'')]
   \<and> ''Error in after_llm_response hook: no voice''
       \<in> set (logged (run_after_llm_response sample_after long_message ''Hi there!'' fresh_world))
   \<and> invoked (run_after_llm_response sample_after long_message ''Hi there!'' fresh_world)
       = [(''after_llm_response'', ''voice_tts''), (''after_llm_response'', ''voice_channel'')]
   \<and> list_all (\<lambda>p. \<not> stops (snd p long_message)) [tracker]
   \<and> \<not> fst (run_on_message_received ([tracker] @ faulty # [tracker]) long_message fresh_world)
   \<and> invoked (snd (run_on_message_received ([tracker] @ faulty # [tracker]) long_message fresh_world))
       = [(''on_message_received'', ''memory''), (''on_message_received'', ''whisper''),
          (''on_message_received'', ''memory'')]
   \<and> prefix [(''process_attachment'', ''shy''), (''process_attachment'', ''broken''),
              (''process_attachment'', ''vision_caption'')]
        (invoked (snd (snd (offer sample_env photo long_message ([shy_hook] @ broken_hook # [captioner])
             (start_draft ''look'', fresh_world)))))
   \<and> prefix [(''process_attachment'', ''shy''), (''process_attachment'', ''broken''),
              (''process_attachment'', ''vision_caption'')]
        (invoked (snd (offer_prev sample_env photo ([shy_hook] @ broken_hook # [captioner])
             (start_draft ''look'', fresh_world))))
   \<and> \<not> fst (offer sample_env photo long_message ([shy_hook] @ broken_hook # [shy_hook])
             (start_draft ''look'', fresh_world))
   \<and> invoked (snd (snd (offer sample_env photo long_message ([shy_hook] @ broken_hook # [shy_hook])
             (start_draft ''look'', fresh_world))))
       = [(''process_attachment'', ''shy''), (''process_attachment'', ''broken''),
          (''process_attachment'', ''shy'')]
   \<and> invoked (snd (offer_prev sample_env photo ([shy_hook] @ broken_hook # [shy_hook])
             (start_draft ''look'', fresh_world)))
       = [(''process_attachment'', ''shy''), (''process_attachment'', ''broken''),
          (''process_attachment'', ''shy'')]"
  using raising_hook_is_logged_and_skipped [where rs = sample_ready and s = fresh_world
      and r = "(''voice_tts'', Raises ''no ffmpeg'')" and ?e1.0 = "''no ffmpeg''"
      and m = long_message and vpre = "[tracker]" and v = faulty and ?e2.0 = "''no audio''"
      and vpost = "[tracker]" and E = sample_env and att = photo and ppre = "[shy_hook]"
      and p = broken_hook and ?e3.0 = "''boom''" and ppost = "[captioner]"
      and d = "start_draft ''look''" and qpre = "[shy_hook]" and q = broken_hook
      and ?e4.0 = "''boom''" and qpost = "[captioner]" and b = "sample_before ! 1"
      and bpre = "[sample_before ! 0]" and ms = "[get_system_prompt sample_env]"
      and ?e5.0 = "''bad json''" and bpost = "[sample_before ! 2]" and bs = sample_before
      and as = sample_after and a = "(''voice_tts'', \<lambda>m t. Raises ''no voice'')"
      and t = "''Hi there!''" and ?e6.0 = "''no voice''"]
    raising_hook_is_logged_and_skipped [where s = fresh_world and m = long_message
      and E = sample_env and att = photo and ppre = "[shy_hook]" and p = broken_hook
      and ?e3.0 = "''boom''" and ppost = "[shy_hook]" and d = "start_draft ''look''"
      and qpre = "[shy_hook]" and q = broken_hook and ?e4.0 = "''boom''" and qpost = "[shy_hook]"]
  by (simp add: sample_ready_def sample_before_def sample_after_def stops_def declines_def
      tracker_def faulty_def shy_hook_def broken_hook_def captioner_def fresh_world_def call_def
      log_error_def)


subsection \<open>The eviction sweep\<close>

lemma map_of_without: "map_of (without ks ns) k = (if k \<in> set ks then None else map_of ns k)"
  by (induction ns) (auto simp: without_def)

lemma held_without: "held (without ks ns) k = (k \<notin> set ks \<and> held ns k)"
  by (simp add: held_def map_of_without)

lemma delete_is_without: "AList.delete k ns = without [k] ns"
  by (induction ns) (auto simp: without_def)

lemma without_without: "without ks (without js ns) = without (js @ ks) ns"
  by (induction ns) (auto simp: without_def)

lemma without_absent: "k \<notin> fst ` set ns \<Longrightarrow> without [k] (ns @ [(k, v)]) = ns"
  by (induction ns) (auto simp: without_def)

lemma without_Nil: "without [] ns = ns"
  by (simp add: without_def)

lemma evict_step_free:
  assumes "\<not> held ns v"
  shows "evict (v # rest) ns = evict rest (without [v] ns)"
proof (cases "map_of ns v")
  case None
  then have "v \<notin> fst ` set ns" by (simp add: map_of_eq_None_iff)
  then have "without [v] (ns @ [(v, new_MsgNode)]) = without [v] ns"
    by (induction ns) (auto simp: without_def)
  with None show ?thesis
    by (simp add: setdefault_def new_MsgNode_def delete_is_without)
next
  case (Some node)
  with assms show ?thesis by (simp add: setdefault_def held_def delete_is_without)
qed

lemma evict_free:
  "\<forall>v\<in>set vs. \<not> held ns v \<Longrightarrow> evict vs ns = Swept (without vs ns)"
proof (induction vs arbitrary: ns)
  case Nil
  then show ?case by (simp add: without_Nil)
next
  case (Cons v vs)
  then have "\<forall>w\<in>set vs. \<not> held (without [v] ns) w" by (simp add: held_without)
  from Cons.IH [OF this] have "evict vs (without [v] ns) = Swept (without (v # vs) ns)"
    by (simp add: without_without)
  moreover have "evict (v # vs) ns = evict vs (without [v] ns)"
    using Cons.prems by (intro evict_step_free) simp
  ultimately show ?case by simp
qed

lemma evict_wait:
  assumes "\<forall>v\<in>set pre. \<not> held ns v" and "held ns h"
  shows "evict (pre @ h # post) ns = Waiting (h # post) (without pre ns)"
  using assms
proof (induction pre arbitrary: ns)
  case Nil
  then show ?case
    by (auto simp: without_Nil setdefault_def held_def split: option.splits)
next
  case (Cons v pre)
  from Cons.prems have hv: "h \<noteq> v" by auto
  from Cons.prems have "\<forall>w\<in>set pre. \<not> held (without [v] ns) w" "held (without [v] ns) h"
    using hv by (simp_all add: held_without)
  from Cons.IH [OF this]
  have "evict (pre @ h # post) (without [v] ns) = Waiting (h # post) (without (v # pre) ns)"
    by (simp add: without_without)
  moreover have "evict ((v # pre) @ h # post) ns = evict (pre @ h # post) (without [v] ns)"
    using Cons.prems by (simp only: append_Cons) (intro evict_step_free, simp)
  ultimately show ?case by simp
qed

lemma keys_without: "map fst (without ks ns) = filter (\<lambda>k. k \<notin> set ks) (map fst ns)"
  by (induction ns) (auto simp: without_def)

lemma filter_take_distinct:
  "distinct xs \<Longrightarrow> filter (\<lambda>k. k \<notin> set (take j xs)) xs = drop j xs"
proof (induction xs arbitrary: j)
  case Nil
  then show ?case by simp
next
  case (Cons x xs)
  show ?case
  proof (cases j)
    case 0
    then show ?thesis by simp
  next
    case (Suc i)
    from Cons.prems have "x \<notin> set xs" "distinct xs" by simp_all
    then have "filter (\<lambda>k. k \<noteq> x \<and> k \<notin> set (take i xs)) xs = filter (\<lambda>k. k \<notin> set (take i xs)) xs"
      by (intro filter_cong) auto
    with Cons.IH [OF \<open>distinct xs\<close>, of i] Suc show ?thesis by simp
  qed
qed

lemma sort_keys_without:
  assumes "distinct (map fst ns)"
  shows "sort (map fst (without (take j (sort (map fst ns))) ns)) = drop j (sort (map fst ns))"
proof -
  have "sort (map fst (without (take j (sort (map fst ns))) ns))
      = filter (\<lambda>k. k \<notin> set (take j (sort (map fst ns)))) (sort (map fst ns))"
    by (simp add: keys_without filter_sort)
  also have "\<dots> = drop j (sort (map fst ns))"
    using assms by (simp add: filter_take_distinct)
  finally show ?thesis .
qed

lemma keys_map_entry: "map fst (AList.map_entry k f ns) = map fst ns"
  by (induction ns) auto

lemma map_entry_id:
  "(\<And>v. map_of ns k = Some v \<Longrightarrow> f v = v) \<Longrightarrow> AList.map_entry k f ns = ns"
  by (induction ns) (auto split: if_splits)

lemma map_entry_twice: "AList.map_entry k g (AList.map_entry k f ns) = AList.map_entry k (g \<circ> f) ns"
  by (induction ns) auto

lemma without_map_entry_gone:
  "k \<in> set ks \<Longrightarrow> without ks (AList.map_entry k f ns) = without ks ns"
  by (induction ns) (auto simp: without_def)

lemma map_entry_without:
  "AList.map_entry k f (without ks ns) = without ks (AList.map_entry k f ns)"
proof (cases "k \<in> set ks")
  case True
  have "AList.map_entry k f (without ks ns) = without ks ns"
    by (intro map_entry_id) (simp add: map_of_without True)
  with True show ?thesis by (simp add: without_map_entry_gone)
next
  case False
  then show ?thesis by (induction ns) (auto simp: without_def)
qed

lemma release_hold:
  assumes "\<not> held ns h"
  shows "release h (without ks (hold h ns)) = without ks ns"
proof -
  have "AList.map_entry h ((\<lambda>node. node\<lparr>lock := False\<rparr>) \<circ> (\<lambda>node. node\<lparr>lock := True\<rparr>)) ns = ns"
    using assms by (intro map_entry_id) (simp add: held_def)
  then show ?thesis
    by (simp add: release_def hold_def map_entry_without map_entry_twice)
qed

lemma held_hold:
  "held (hold h ns) v = (if v = h then map_of ns h \<noteq> None else held ns v)"
  by (auto simp: held_def hold_def map_of_map_entry split: option.splits)


lemma evict_oldest_victims:
  "length ns = MAX_MESSAGE_NODES + k \<Longrightarrow> evict_oldest ns = evict (oldest k ns) ns"
  by (cases k) (simp_all add: evict_oldest_def oldest_def Let_def)

lemma sweep_free:
  assumes "length ns = MAX_MESSAGE_NODES + k" and "\<forall>v\<in>set (oldest k ns). \<not> held ns v"
  shows "evict_oldest ns = Swept (without (oldest k ns) ns)"
  using assms by (simp add: evict_oldest_victims evict_free)

lemma distinct_oldest: "distinct (map fst ns) \<Longrightarrow> distinct (oldest k ns)"
  by (simp add: oldest_def)

lemma sweep_blocked:
  assumes dist: "distinct (map fst ns)"
    and len: "length ns = MAX_MESSAGE_NODES + k"
    and free: "\<forall>v\<in>set (oldest k ns). \<not> held ns v"
    and split: "oldest k ns = pre @ h # post"
  shows "evict_oldest (hold h ns) = Waiting (h # post) (without pre (hold h ns))"
    and "map_of (without pre (hold h ns)) h = map_of (hold h ns) h"
    and "held (without pre (hold h ns)) h"
    and "list_all (\<lambda>v. map_of (without pre (hold h ns)) v = None) pre"
    and "list_all (\<lambda>v. map_of (without pre (hold h ns)) v = map_of ns v \<and> map_of ns v \<noteq> None) post"
    and "evict (h # post) (release h (without pre (hold h ns))) = Swept (without (oldest k ns) ns)"
proof -
  from distinct_oldest [OF dist, of k] split
  have hpre: "h \<notin> set pre" and hpost: "h \<notin> set post" and apart: "set pre \<inter> set post = {}"
    by auto
  have h: "h \<in> set (oldest k ns)" by (simp add: split)
  have key: "map_of ns v \<noteq> None" if "v \<in> set (oldest k ns)" for v
  proof -
    from that have "v \<in> set (sort (map fst ns))" unfolding oldest_def by (rule in_set_takeD)
    then have "v \<in> fst ` set ns" by simp
    then show ?thesis by (simp add: map_of_eq_None_iff)
  qed
  have keys: "map fst (hold h ns) = map fst ns" by (simp add: hold_def keys_map_entry)
  have same: "oldest k (hold h ns) = oldest k ns" by (simp add: oldest_def keys)
  have len': "length (hold h ns) = MAX_MESSAGE_NODES + k"
    using len keys by (metis length_map)
  have free_pre: "\<forall>v\<in>set pre. \<not> held (hold h ns) v"
    using free hpre split by (auto simp: held_hold)
  have held_h: "held (hold h ns) h" using key [OF h] by (simp add: held_hold)
  show "evict_oldest (hold h ns) = Waiting (h # post) (without pre (hold h ns))"
    using evict_wait [OF free_pre held_h, of post] by (simp add: evict_oldest_victims [OF len'] same split)
  show "map_of (without pre (hold h ns)) h = map_of (hold h ns) h"
    using hpre by (simp add: map_of_without)
  show "held (without pre (hold h ns)) h"
    using hpre held_h by (simp add: held_without)
  show "list_all (\<lambda>v. map_of (without pre (hold h ns)) v = None) pre"
    by (simp add: list_all_iff map_of_without)
  show "list_all (\<lambda>v. map_of (without pre (hold h ns)) v = map_of ns v \<and> map_of ns v \<noteq> None) post"
    unfolding list_all_iff
  proof
    fix v assume v: "v \<in> set post"
    with apart hpost have "v \<notin> set pre" and "v \<noteq> h" by auto
    moreover from v have "v \<in> set (oldest k ns)" by (simp add: split)
    ultimately show "map_of (without pre (hold h ns)) v = map_of ns v \<and> map_of ns v \<noteq> None"
      using key [of v] by (simp add: map_of_without hold_def map_of_map_entry)
  qed
  have nh: "\<not> held ns h" using free h by simp
  have rel: "release h (without pre (hold h ns)) = without pre ns"
    by (rule release_hold [OF nh])
  have free_rest: "\<forall>v\<in>set (h # post). \<not> held (without pre ns) v"
    using free split by (auto simp: held_without)
  show "evict (h # post) (release h (without pre (hold h ns))) = Swept (without (oldest k ns) ns)"
    unfolding rel using evict_free [OF free_rest] by (simp add: without_without split)
qed


lemma length_without_oldest:
  assumes "distinct (map fst ns)" and "k \<le> length ns"
  shows "length (without (oldest k ns) ns) = length ns - k"
proof -
  have "length (without (oldest k ns) ns) = length (sort (map fst (without (oldest k ns) ns)))"
    by simp
  also have "\<dots> = length (drop k (sort (map fst ns)))"
    using sort_keys_without [OF assms(1), of k] by (simp only: oldest_def)
  finally show ?thesis by simp
qed

lemma full_cache_keys: "map fst full_cache = [1..<106]"
  by (simp add: full_cache_def comp_def)

lemma full_cache_oldest: "oldest 5 full_cache = [1, 2, 3, 4, 5]"
proof -
  have "oldest 5 full_cache = [1..<6]" by (simp add: oldest_def full_cache_keys)
  also have "\<dots> = [1, 2, 3, 4, 5]" by (simp add: upt_rec)
  finally show ?thesis .
qed

lemma full_cache_length: "length full_cache = MAX_MESSAGE_NODES + 5"
  by (simp add: full_cache_def MAX_MESSAGE_NODES_def)

lemma full_cache_free: "\<not> held full_cache v"
  by (simp add: held_def full_cache_def map_of_map_restrict restrict_map_def new_MsgNode_def)

text \<open>
  C5. With \<open>MAX_MESSAGE_NODES + 5\<close> nodes in the cache and no guard of the five lowest
  identifiers held, the sweep removes exactly the nodes of the five lowest identifiers.
  When the guard of one of these five is held by a writer, the sweep does not go round
  that node: it deletes the victims below it and waits at it, so that the node is still
  in the cache with its guard held, and so are the victims above it. Once the guard is
  released, the waiting sweep goes on from that node and removes it and the victims
  above it; the cache is then the one without the five lowest identifiers.
\<close>

theorem sweep_removes_five_oldest_and_waits_for_guard:
  assumes "distinct (map fst ns)"
    and "length ns = MAX_MESSAGE_NODES + 5"
    and "\<forall>v\<in>set (oldest 5 ns). \<not> held ns v"
  shows "evict_oldest ns = Swept (without (oldest 5 ns) ns)
    \<and> length (without (oldest 5 ns) ns) = MAX_MESSAGE_NODES
    \<and> (oldest 5 ns = pre @ h # post \<longrightarrow>
         evict_oldest (hold h ns) = Waiting (h # post) (without pre (hold h ns))
         \<and> map_of (without pre (hold h ns)) h = map_of (hold h ns) h
         \<and> held (without pre (hold h ns)) h
         \<and> list_all (\<lambda>v. map_of (without pre (hold h ns)) v = None) pre
         \<and> list_all (\<lambda>v. map_of (without pre (hold h ns)) v = map_of ns v \<and> map_of ns v \<noteq> None) post
         \<and> evict (h # post) (release h (without pre (hold h ns)))
             = Swept (without (oldest 5 ns) ns))"
proof (intro conjI impI)
  show "evict_oldest ns = Swept (without (oldest 5 ns) ns)"
    by (rule sweep_free [OF assms(2,3)])
  show "length (without (oldest 5 ns) ns) = MAX_MESSAGE_NODES"
    using length_without_oldest [OF assms(1), of 5] assms(2) by simp
next
  assume split: "oldest 5 ns = pre @ h # post"
  note blocked = sweep_blocked [OF assms split]
  show "evict_oldest (hold h ns) = Waiting (h # post) (without pre (hold h ns))"
    by (rule blocked(1))
  show "map_of (without pre (hold h ns)) h = map_of (hold h ns) h" by (rule blocked(2))
  show "held (without pre (hold h ns)) h" by (rule blocked(3))
  show "list_all (\<lambda>v. map_of (without pre (hold h ns)) v = None) pre" by (rule blocked(4))
  show "list_all (\<lambda>v. map_of (without pre (hold h ns)) v = map_of ns v \<and> map_of ns v \<noteq> None) post"
    by (rule blocked(5))
  show "evict (h # post) (release h (without pre (hold h ns))) = Swept (without (oldest 5 ns) ns)"
    by (rule blocked(6))
qed

theorem sweep_removes_five_oldest_and_waits_for_guard_witness:
  "distinct (map fst full_cache)
   \<and> length full_cache = MAX_MESSAGE_NODES + 5
   \<and> list_all (\<lambda>v. \<not> held full_cache v) (oldest 5 full_cache)
   \<and> oldest 5 full_cache = [1, 2] @ 3 # [4, 5]
   \<and> evict_oldest full_cache = Swept (without [1, 2, 3, 4, 5] full_cache)
   \<and> length (without [1, 2, 3, 4, 5] full_cache) = 100
   \<and> evict_oldest (hold 3 full_cache) = Waiting [3, 4, 5] (without [1, 2] (hold 3 full_cache))
   \<and> held (without [1, 2] (hold 3 full_cache)) 3
   \<and> list_all (\<lambda>v. map_of (without [1, 2] (hold 3 full_cache)) v = None) [1, 2]
   \<and> list_all (\<lambda>v. map_of (without [1, 2] (hold 3 full_cache)) v = map_of full_cache v
                  \<and> map_of full_cache v \<noteq> None) [4, 5]
   \<and> evict [3, 4, 5] (release 3 (without [1, 2] (hold 3 full_cache)))
       = Swept (without [1, 2, 3, 4, 5] full_cache)"
proof -
  have dist: "distinct (map fst full_cache)" by (simp add: full_cache_keys)
  have free: "\<forall>v\<in>set (oldest 5 full_cache). \<not> held full_cache v"
    by (simp add: full_cache_free)
  have five: "oldest 5 full_cache = [1, 2] @ 3 # [4, 5]" by (simp add: full_cache_oldest)
  show ?thesis
    using sweep_removes_five_oldest_and_waits_for_guard [OF dist full_cache_length free,
        of "[1, 2]" 3 "[4, 5]"] dist full_cache_length free five
    by (simp add: full_cache_oldest MAX_MESSAGE_NODES_def list_all_iff)
qed

theorem held_guard_blocks_the_sweep:
  "length full_cache = MAX_MESSAGE_NODES + 5
   \<and> oldest 5 (hold 1 full_cache) = [1, 2, 3, 4, 5]
   \<and> list_all (\<lambda>v. \<not> held (hold 1 full_cache) v) [2, 3, 4, 5]
   \<and> evict_oldest (hold 1 full_cache) = Waiting [1, 2, 3, 4, 5] (hold 1 full_cache)
   \<and> length (hold 1 full_cache) = MAX_MESSAGE_NODES + 5
   \<and> list_all (\<lambda>v. map_of (hold 1 full_cache) v \<noteq> None) [2, 3, 4, 5]"
proof -
  have dist: "distinct (map fst full_cache)" by (simp add: full_cache_keys)
  have free: "\<forall>v\<in>set (oldest 5 full_cache). \<not> held full_cache v"
    by (simp add: full_cache_free)
  have five: "oldest 5 full_cache = [] @ 1 # [2, 3, 4, 5]" by (simp add: full_cache_oldest)
  note blocked = sweep_blocked [OF dist full_cache_length free five]
  have keys: "map fst (hold 1 full_cache) = map fst full_cache"
    by (simp add: hold_def keys_map_entry)
  have "oldest 5 (hold 1 full_cache) = oldest 5 full_cache"
    unfolding oldest_def keys ..
  then have same: "oldest 5 (hold 1 full_cache) = [1, 2, 3, 4, 5]"
    by (simp only: full_cache_oldest)
  have len: "length (hold 1 full_cache) = MAX_MESSAGE_NODES + 5"
    using full_cache_length keys by (metis length_map)
  have wait: "evict_oldest (hold 1 full_cache) = Waiting [1, 2, 3, 4, 5] (hold 1 full_cache)"
    using blocked(1) by (simp add: without_Nil)
  have there: "list_all (\<lambda>v. map_of (hold 1 full_cache) v \<noteq> None) [2, 3, 4, 5]"
    using blocked(5) by (simp add: without_Nil)
  have unheld: "list_all (\<lambda>v. \<not> held (hold 1 full_cache) v) [2, 3, 4, 5]"
    by (simp add: held_hold full_cache_free)
  show ?thesis
    using full_cache_length same unheld wait len there by simp
qed


subsection \<open>The streaming loop\<close>

lemma extends_refl: "extends a a"
  by (simp add: extends_def)

lemma extends_trans: "extends a b \<Longrightarrow> extends b c \<Longrightarrow> extends a c"
  unfolding extends_def
  by (auto dest: set_mono_prefix)

lemma open_message_extends: "extends (r, s) (open_message E ws (r\<lparr>response_contents := rc\<rparr>, s))"
  by (auto simp: extends_def open_message_def send_def Let_def AList.update_conv')

lemma open_message_contents:
  "response_contents (fst (open_message E ws (r, s))) = response_contents r"
  by (simp add: open_message_def send_def Let_def)

lemma open_message_msgs:
  "response_msgs (fst (open_message E ws (r, s))) = response_msgs r @ [next_id s]"
  by (simp add: open_message_def send_def Let_def)

lemma open_message_registered:
  assumes "\<forall>k\<in>set (response_msgs r). map_of (msg_nodes s) k \<noteq> None"
  shows "\<forall>k\<in>set (response_msgs (fst (open_message E ws (r, s)))).
           map_of (msg_nodes (snd (open_message E ws (r, s)))) k \<noteq> None"
  using assms by (auto simp: open_message_def send_def Let_def AList.update_conv')

lemma start_segment_extends: "extends (r, s) (start_segment E ws c (r, s))"
proof (cases "response_contents r = []")
  case True
  obtain r' s' where o: "open_message E ws (r\<lparr>response_contents := [[]]\<rparr>, s) = (r', s')"
    by (cases "open_message E ws (r\<lparr>response_contents := [[]]\<rparr>, s)")
  have "extends (r, s) (r', s')" using open_message_extends [of r s E ws "[[]]"] o by simp
  then have "extends (r, s) (r', s'\<lparr>last_task_time := Some (clock c)\<rparr>)"
    by (simp add: extends_def)
  with True o show ?thesis by (simp add: start_segment_def)
next
  case False
  then show ?thesis by (simp add: start_segment_def extends_refl)
qed

lemma start_segment_registered:
  assumes "registered (r, s)"
  shows "registered (start_segment E ws c (r, s))
    \<and> response_contents (fst (start_segment E ws c (r, s)))
        = (if response_contents r = [] then [[]] else response_contents r)"
proof (cases "response_contents r = []")
  case True
  let ?r0 = "r\<lparr>response_contents := [[]]\<rparr>"
  obtain r' s' where o: "open_message E ws (?r0, s) = (r', s')"
    by (cases "open_message E ws (?r0, s)")
  from assms True have emp: "response_msgs r = []" by (simp add: registered_def)
  have c: "response_contents r' = [[]]" using open_message_contents [of E ws ?r0 s] o by simp
  have m: "response_msgs r' = [next_id s]" using open_message_msgs [of E ws ?r0 s] o emp by simp
  have "\<forall>k\<in>set (response_msgs r'). map_of (msg_nodes s') k \<noteq> None"
    using open_message_registered [of ?r0 s E ws] o emp by simp
  with c m True o show ?thesis by (simp add: start_segment_def registered_def)
next
  case False
  with assms show ?thesis by (simp add: start_segment_def)
qed

lemma split_segment_extends: "extends (r, s) (split_segment E t (r, s))"
  using open_message_extends [of r s E "{}" "response_contents r @ [[]]"]
  by (simp add: split_segment_def extends_refl)

lemma split_segment_registered:
  assumes "registered (r, s)"
  shows "registered (split_segment E t (r, s))
    \<and> response_contents (fst (split_segment E t (r, s)))
        = (if length (last (response_contents r) @ t) > MAX_MESSAGE_LENGTH E
           then response_contents r @ [[]] else response_contents r)"
proof (cases "length (last (response_contents r) @ t) > MAX_MESSAGE_LENGTH E")
  case True
  let ?r0 = "r\<lparr>response_contents := response_contents r @ [[]]\<rparr>"
  obtain r' s' where o: "open_message E {} (?r0, s) = (r', s')"
    by (cases "open_message E {} (?r0, s)")
  have c: "response_contents r' = response_contents r @ [[]]"
    using open_message_contents [of E "{}" ?r0 s] o by simp
  have m: "response_msgs r' = response_msgs r @ [next_id s]"
    using open_message_msgs [of E "{}" ?r0 s] o by simp
  have "\<forall>k\<in>set (response_msgs r'). map_of (msg_nodes s') k \<noteq> None"
    using open_message_registered [of ?r0 s E "{}"] o assms by (simp add: registered_def)
  with c m True o assms show ?thesis by (simp add: split_segment_def registered_def)
next
  case False
  with assms show ?thesis by (simp add: split_segment_def)
qed

lemma accumulate_extends: "extends (r, s) (accumulate t (r, s))"
  by (simp add: accumulate_def extends_def)

lemma accumulate_registered:
  assumes "registered (r, s)" and "response_contents r \<noteq> []"
  shows "registered (accumulate t (r, s))"
  using assms by (simp add: accumulate_def registered_def)

lemma push_update_extends: "extends (r, s) (push_update E c (r, s))"
  by (auto simp: push_update_def Let_def extends_def split: option.splits)

lemma push_update_contents:
  "response_contents (fst (push_update E c (r, s))) = response_contents r"
  by (auto simp: push_update_def Let_def split: option.splits)

lemma push_update_registered:
  "registered (r, s) \<Longrightarrow> registered (push_update E c (r, s))"
  by (auto simp: push_update_def Let_def registered_def split: option.splits)

text \<open>What a chunk does to the segments, whatever the clock and the edits.\<close>

lemma on_chunk_contents:
  assumes "registered (r, s)"
  shows "response_contents (fst (on_chunk E ws c (r, s)))
     = (let rc1 = (if response_contents r = [] then [[]] else response_contents r);
            rc2 = (if length (last rc1 @ curr_content_of c) > MAX_MESSAGE_LENGTH E
                   then rc1 @ [[]] else rc1)
        in butlast rc2 @ [last rc2 @ curr_content_of c])"
proof -
  obtain r1 s1 where a: "start_segment E ws c (r, s) = (r1, s1)"
    by (cases "start_segment E ws c (r, s)")
  obtain r2 s2 where b: "split_segment E (curr_content_of c) (r1, s1) = (r2, s2)"
    by (cases "split_segment E (curr_content_of c) (r1, s1)")
  obtain r3 s3 where d: "accumulate (curr_content_of c) (r2, s2) = (r3, s3)"
    by (cases "accumulate (curr_content_of c) (r2, s2)")
  have 1: "registered (r1, s1)"
    "response_contents r1 = (if response_contents r = [] then [[]] else response_contents r)"
    using start_segment_registered [OF assms, of E ws c] a by simp_all
  have 2: "response_contents r2
      = (if length (last (response_contents r1) @ curr_content_of c) > MAX_MESSAGE_LENGTH E
         then response_contents r1 @ [[]] else response_contents r1)"
    using split_segment_registered [OF 1(1), of E "curr_content_of c"] b by simp
  have 3: "response_contents r3
      = butlast (response_contents r2) @ [last (response_contents r2) @ curr_content_of c]"
    using d by (auto simp: accumulate_def)
  have "response_contents (fst (on_chunk E ws c (r, s))) = response_contents r3"
    using push_update_contents [of E c r3 s3] by (simp add: on_chunk_def a b d)
  then show ?thesis unfolding 3 2 1(2) by (simp add: Let_def)
qed

lemma on_chunk_registered:
  assumes "registered (r, s)"
  shows "registered (on_chunk E ws c (r, s))"
proof -
  obtain r1 s1 where a: "start_segment E ws c (r, s) = (r1, s1)"
    by (cases "start_segment E ws c (r, s)")
  obtain r2 s2 where b: "split_segment E (curr_content_of c) (r1, s1) = (r2, s2)"
    by (cases "split_segment E (curr_content_of c) (r1, s1)")
  obtain r3 s3 where d: "accumulate (curr_content_of c) (r2, s2) = (r3, s3)"
    by (cases "accumulate (curr_content_of c) (r2, s2)")
  have 1: "registered (r1, s1)" "response_contents r1 \<noteq> []"
    using start_segment_registered [OF assms, of E ws c] a by (simp_all split: if_splits)
  have 2: "registered (r2, s2)" "response_contents r2 \<noteq> []"
    using split_segment_registered [OF 1(1), of E "curr_content_of c"] b 1(2)
    by (simp_all split: if_splits)
  have 3: "registered (r3, s3)" using accumulate_registered [OF 2, of "curr_content_of c"] d by simp
  show ?thesis using push_update_registered [OF 3, of E c] by (simp add: on_chunk_def a b d)
qed

lemma on_chunk_extends: "extends (r, s) (on_chunk E ws c (r, s))"
proof -
  obtain r1 s1 where a: "start_segment E ws c (r, s) = (r1, s1)"
    by (cases "start_segment E ws c (r, s)")
  obtain r2 s2 where b: "split_segment E (curr_content_of c) (r1, s1) = (r2, s2)"
    by (cases "split_segment E (curr_content_of c) (r1, s1)")
  obtain r3 s3 where d: "accumulate (curr_content_of c) (r2, s2) = (r3, s3)"
    by (cases "accumulate (curr_content_of c) (r2, s2)")
  have "extends (r, s) (r1, s1)" using start_segment_extends [of r s E ws c] a by simp
  moreover have "extends (r1, s1) (r2, s2)"
    using split_segment_extends [of r1 s1 E "curr_content_of c"] b by simp
  moreover have "extends (r2, s2) (r3, s3)"
    using accumulate_extends [of r2 s2 "curr_content_of c"] d by simp
  moreover have "extends (r3, s3) (push_update E c (r3, s3))" by (rule push_update_extends)
  ultimately show ?thesis
    by (simp add: on_chunk_def a b d) (blast intro: extends_trans)
qed

lemma stream_registered:
  "registered a \<Longrightarrow> registered (fold (on_chunk E ws) cs a)"
proof (induction cs arbitrary: a)
  case Nil
  then show ?case by simp
next
  case (Cons c cs)
  obtain r s where a: "a = (r, s)" by (cases a)
  with Cons show ?case by (simp add: on_chunk_registered)
qed

lemma stream_extends:
  "extends a (fold (on_chunk E ws) cs a)"
proof (induction cs arbitrary: a)
  case Nil
  then show ?case by (simp add: extends_refl)
next
  case (Cons c cs)
  obtain r s where a: "a = (r, s)" by (cases a)
  have "extends a (on_chunk E ws c a)" unfolding a by (rule on_chunk_extends)
  with Cons.IH [of "on_chunk E ws c a"] show ?case by (auto intro: extends_trans)
qed

lemma on_chunk_concat:
  assumes "registered (r, s)"
  shows "concat (response_contents (fst (on_chunk E ws c (r, s))))
     = concat (response_contents r) @ curr_content_of c"
proof -
  have k: "rc \<noteq> [] \<Longrightarrow> concat (butlast rc @ [last rc @ t]) = concat rc @ t" for rc :: "string list" and t
    by (induction rc rule: rev_induct) simp_all
  have k2: "rc \<noteq> [] \<Longrightarrow> concat (butlast rc) @ last rc = concat rc" for rc :: "string list"
    by (induction rc rule: rev_induct) simp_all
  show ?thesis
    unfolding on_chunk_contents [OF assms]
    by (simp add: Let_def k k2)
qed

lemma stream_concat:
  "registered a \<Longrightarrow>
   concat (response_contents (fst (fold (on_chunk E ws) cs a)))
     = concat (response_contents (fst a)) @ concat (map curr_content_of cs)"
proof (induction cs arbitrary: a)
  case Nil
  then show ?case by simp
next
  case (Cons c cs)
  obtain r s where a: "a = (r, s)" by (cases a)
  have "registered (on_chunk E ws c a)" using Cons.prems a by (simp add: on_chunk_registered)
  from Cons.IH [OF this] Cons.prems a show ?case by (simp add: on_chunk_concat)
qed


subsection \<open>The end of the reply\<close>

lemma registered_idle: "registered (idle, s)"
  by (simp add: registered_def idle_def)

lemma send_whole_nothing: "fold send_whole [] a = a"
  by simp

lemma generate_loop:
  "generate E ws st s =
     (case fold (on_chunk E ws) (fst st) (idle, s) of
        (r, s1) \<Rightarrow>
          (case snd st of
             Exhausted \<Rightarrow> (r, s1)
           | StreamError e \<Rightarrow>
               (r, snd (send (Fixed GenerationFailed)
                          (log_error (''Error while generating response: '' @ e) s1)))))"
proof -
  obtain r s1 where f: "fold (on_chunk E ws) (fst st) (idle, s) = (r, s1)"
    by (cases "fold (on_chunk E ws) (fst st) (idle, s)")
  have "registered (r, s1)" using stream_registered [OF registered_idle, of E ws "fst st" s] f by simp
  then have "response_msgs r = [] \<Longrightarrow> response_contents r = []" by (simp add: registered_def)
  then show ?thesis
    using f by (auto simp: generate_def idle_def split: ending.splits)
qed

lemma generate_effects:
  assumes "generate E ws st s = (r, s')"
  shows "registered (r, s')"
    and "prefix (outbox s) (outbox s')"
    and "\<forall>k. k \<notin> set (response_msgs r) \<longrightarrow> map_of (msg_nodes s') k = map_of (msg_nodes s) k"
    and "length (filter is_failure_notice (outbox s'))
          = length (filter is_failure_notice (outbox s))
            + (case snd st of Exhausted \<Rightarrow> 0 | StreamError e \<Rightarrow> 1)"
    and "length (filter is_send (outbox s'))
          = length (filter is_send (outbox s)) + length (response_msgs r)
            + (case snd st of Exhausted \<Rightarrow> 0 | StreamError e \<Rightarrow> 1)"
    and "concat (response_contents r) = concat (map curr_content_of (fst st))"
proof -
  obtain r1 s1 where f: "fold (on_chunk E ws) (fst st) (idle, s) = (r1, s1)"
    by (cases "fold (on_chunk E ws) (fst st) (idle, s)")
  have reg: "registered (r1, s1)"
    using stream_registered [OF registered_idle, of E ws "fst st" s] f by simp
  have ext: "extends (idle, s) (r1, s1)"
    using stream_extends [of "(idle, s)" E ws "fst st"] f by simp
  have cat: "concat (response_contents r1) = concat (map curr_content_of (fst st))"
    using stream_concat [OF registered_idle, of E ws "fst st" s] f by (simp add: idle_def)
  from assms f have r: "r = r1"
    and s': "s' = (case snd st of Exhausted \<Rightarrow> s1
        | StreamError e \<Rightarrow> snd (send (Fixed GenerationFailed)
            (log_error (''Error while generating response: '' @ e) s1)))"
    by (auto simp: generate_loop split: ending.splits)
  show "registered (r, s')"
    using reg by (auto simp: r s' registered_def send_def log_error_def split: ending.splits)
  show "prefix (outbox s) (outbox s')"
    using ext by (auto simp: s' extends_def send_def log_error_def split: ending.splits)
  show "\<forall>k. k \<notin> set (response_msgs r) \<longrightarrow> map_of (msg_nodes s') k = map_of (msg_nodes s) k"
    using ext by (auto simp: r s' extends_def send_def log_error_def split: ending.splits)
  show "length (filter is_failure_notice (outbox s'))
          = length (filter is_failure_notice (outbox s))
            + (case snd st of Exhausted \<Rightarrow> 0 | StreamError e \<Rightarrow> 1)"
    using ext by (auto simp: s' extends_def send_def log_error_def split: ending.splits)
  show "length (filter is_send (outbox s'))
          = length (filter is_send (outbox s)) + length (response_msgs r)
            + (case snd st of Exhausted \<Rightarrow> 0 | StreamError e \<Rightarrow> 1)"
    using ext by (auto simp: r s' extends_def idle_def send_def log_error_def split: ending.splits)
  show "concat (response_contents r) = concat (map curr_content_of (fst st))"
    using cat by (simp add: r)
qed

lemma after_frame:
  "msg_nodes (run_after_llm_response hs m t s) = msg_nodes s
   \<and> outbox (run_after_llm_response hs m t s) = outbox s"
proof (induction hs arbitrary: s)
  case Nil
  then show ?case by simp
next
  case (Cons h hs)
  then show ?case by (cases "snd h m t") (simp_all add: call_def log_error_def)
qed

lemma fold_map_entry_other:
  "k \<notin> set ks \<Longrightarrow> map_of (fold (\<lambda>m ns. AList.map_entry m f ns) ks ns) k = map_of ns k"
  by (induction ks arbitrary: ns) (auto simp: map_of_map_entry)

lemma fold_map_entry_hit:
  assumes "\<And>x. f (f x) = f x"
  shows "k \<in> set ks \<Longrightarrow> map_of ns k = Some n \<Longrightarrow>
         map_of (fold (\<lambda>m ns. AList.map_entry m f ns) ks ns) k = Some (f n)"
proof (induction ks arbitrary: ns n)
  case Nil
  then show ?case by simp
next
  case (Cons m ks)
  show ?case
  proof (cases "m = k")
    case True
    have 1: "map_of (AList.map_entry m f ns) k = Some (f n)"
      using True Cons.prems(2) by (simp add: map_of_map_entry)
    show ?thesis
    proof (cases "k \<in> set ks")
      case True
      from Cons.IH [OF True 1] show ?thesis by (simp add: assms)
    next
      case False
      then show ?thesis using 1 by (simp add: fold_map_entry_other)
    qed
  next
    case False
    then have 1: "map_of (AList.map_entry m f ns) k = Some n"
      using Cons.prems(2) by (simp add: map_of_map_entry)
    from False Cons.prems(1) have "k \<in> set ks" by simp
    from Cons.IH [OF this 1] show ?thesis by simp
  qed
qed

lemma settle_hit:
  assumes "k \<in> set (response_msgs r)" and "map_of (msg_nodes s) k \<noteq> None"
  shows "settled (concat (response_contents r)) (msg_nodes (settle E r s)) k"
proof -
  from assms(2) obtain n where n: "map_of (msg_nodes s) k = Some n" by auto
  let ?f = "\<lambda>node. node\<lparr>data := Some (assistant_turn E (concat (response_contents r))), lock := False\<rparr>"
  have "map_of (fold (\<lambda>m ns. AList.map_entry m ?f ns) (response_msgs r) (msg_nodes s)) k = Some (?f n)"
    by (rule fold_map_entry_hit [OF _ assms(1) n]) simp
  then show ?thesis by (simp add: settled_def settle_def assistant_turn_def)
qed

lemma settle_other:
  "k \<notin> set (response_msgs r) \<Longrightarrow> map_of (msg_nodes (settle E r s)) k = map_of (msg_nodes s) k"
  by (simp add: settle_def fold_map_entry_other)

lemma settle_outbox: "outbox (settle E r s) = outbox s"
  by (simp add: settle_def)

lemma answer_effects:
  assumes "answer E new_msg ws messages s = (r, s')"
  shows "list_all (settled (concat (response_contents r)) (msg_nodes s')) (response_msgs r)"
    and "concat (response_contents r) = concat (map curr_content_of (fst (llm E messages)))"
    and "prefix (outbox s) (outbox s')"
    and "length (filter is_failure_notice (outbox s'))
          = length (filter is_failure_notice (outbox s))
            + (case snd (llm E messages) of Exhausted \<Rightarrow> 0 | StreamError e \<Rightarrow> 1)"
    and "length (filter is_send (outbox s'))
          = length (filter is_send (outbox s)) + length (response_msgs r)
            + (case snd (llm E messages) of Exhausted \<Rightarrow> 0 | StreamError e \<Rightarrow> 1)"
    and "\<forall>k. held (msg_nodes s') k \<longrightarrow> held (msg_nodes s) k"
proof -
  let ?s0 = "s\<lparr>requests := requests s @ [messages]\<rparr>"
  obtain r1 s1 where g: "generate E ws (llm E messages) ?s0 = (r1, s1)"
    by (cases "generate E ws (llm E messages) ?s0")
  let ?s2 = "run_after_llm_response (after_llm_response (hooks E)) new_msg (concat (response_contents r1)) s1"
  from assms g have r: "r = r1" and s': "s' = settle E r1 ?s2" by (auto simp: answer_def)
  note ge = generate_effects [OF g]
  have nodes2: "msg_nodes ?s2 = msg_nodes s1" and out2: "outbox ?s2 = outbox s1"
    using after_frame by simp_all
  have reg: "\<forall>k\<in>set (response_msgs r1). map_of (msg_nodes ?s2) k \<noteq> None"
    using ge(1) by (simp add: registered_def nodes2)
  show "list_all (settled (concat (response_contents r)) (msg_nodes s')) (response_msgs r)"
    unfolding list_all_iff r s' using reg by (auto intro: settle_hit)
  show "concat (response_contents r) = concat (map curr_content_of (fst (llm E messages)))"
    using ge(6) by (simp add: r)
  show "prefix (outbox s) (outbox s')" using ge(2) by (simp add: s' settle_outbox out2)
  show "length (filter is_failure_notice (outbox s'))
          = length (filter is_failure_notice (outbox s))
            + (case snd (llm E messages) of Exhausted \<Rightarrow> 0 | StreamError e \<Rightarrow> 1)"
    using ge(4) by (simp add: s' settle_outbox out2)
  show "length (filter is_send (outbox s'))
          = length (filter is_send (outbox s)) + length (response_msgs r)
            + (case snd (llm E messages) of Exhausted \<Rightarrow> 0 | StreamError e \<Rightarrow> 1)"
    using ge(5) by (simp add: r s' settle_outbox out2)
  show "\<forall>k. held (msg_nodes s') k \<longrightarrow> held (msg_nodes s) k"
  proof (intro allI impI)
    fix k assume h: "held (msg_nodes s') k"
    show "held (msg_nodes s) k"
    proof (cases "k \<in> set (response_msgs r1)")
      case True
      with reg have "settled (concat (response_contents r1)) (msg_nodes s') k"
        unfolding s' by (auto intro: settle_hit)
      with h show ?thesis by (auto simp: settled_def held_def split: option.splits)
    next
      case False
      then have "map_of (msg_nodes s') k = map_of (msg_nodes s) k"
        using ge(3) by (simp add: s' settle_other nodes2)
      with h show ?thesis by (simp add: held_def)
    qed
  qed
qed

lemma failing_run:
  "answer failing_env long_message {} [get_system_prompt failing_env] busy_world
   = (\<lparr>response_msgs = [1000], response_contents = [''Hi there!''], edit_task = True,
       embed_var = Some \<lparr>description = ''Hi there o'', color = INCOMPLETE, embed_fields = {}\<rparr>\<rparr>,
      busy_world\<lparr>msg_nodes := [(900, new_MsgNode\<lparr>lock := True\<rparr>),
          (1000, new_MsgNode\<lparr>data := Some \<lparr>content = Text ''Hi there!'', role = ''assistant'',
             name = None\<rparr>\<rparr>)],
        last_task_time := Some 2000000, next_id := 1002,
        outbox := [Send 1000 (Rich \<lparr>description = '' o'', color = INCOMPLETE, embed_fields = {}\<rparr>),
          Edit 1000 (Rich \<lparr>description = ''Hi there o'', color = INCOMPLETE, embed_fields = {}\<rparr>),
          Send 1001 (Fixed GenerationFailed)],
        logged := [''Error while generating response: connection reset''],
        requests := [[get_system_prompt failing_env]]\<rparr>)"
  by (simp add: answer_def generate_def on_chunk_def start_segment_def split_segment_def
      accumulate_def push_update_def open_message_def send_def settle_def log_error_def
      curr_content_of_def MAX_MESSAGE_LENGTH_def STREAMING_INDICATOR_def EDIT_DELAY_SECONDS_def
      token_def broken_stream_def failing_env_def sample_env_def no_hooks_def busy_world_def
      fresh_world_def new_MsgNode_def assistant_turn_def Let_def)

lemma answer_outbox:
  "outbox (snd (answer E new_msg ws messages s))
     = outbox (snd (streamed E ws (fst (llm E messages)) messages s))
       @ (case snd (llm E messages) of
            Exhausted \<Rightarrow> []
          | StreamError e \<Rightarrow>
              [Send (next_id (snd (streamed E ws (fst (llm E messages)) messages s)))
                 (Fixed GenerationFailed)])"
proof -
  let ?s0 = "s\<lparr>requests := requests s @ [messages]\<rparr>"
  obtain r1 s1 where f: "fold (on_chunk E ws) (fst (llm E messages)) (idle, ?s0) = (r1, s1)"
    by (cases "fold (on_chunk E ws) (fst (llm E messages)) (idle, ?s0)")
  show ?thesis
    using f
    by (simp add: answer_def generate_loop streamed_def settle_outbox after_frame send_def
        log_error_def split: ending.splits)
qed

lemma streamed_prefix:
  "prefix (outbox (snd (streamed E ws (take n cs) messages s)))
     (outbox (snd (streamed E ws cs messages s)))"
proof -
  let ?a = "streamed E ws (take n cs) messages s"
  have "fold (on_chunk E ws) (take n cs @ drop n cs) x
      = fold (on_chunk E ws) (drop n cs) (fold (on_chunk E ws) (take n cs) x)" for x
    by (simp only: fold_append comp_def)
  then have "streamed E ws cs messages s = fold (on_chunk E ws) (drop n cs) ?a"
    by (simp add: streamed_def)
  then have "extends ?a (streamed E ws cs messages s)"
    using stream_extends [of ?a E ws "drop n cs"] by simp
  then show ?thesis by (simp add: extends_def)
qed

lemma streamed_begin: "prefix (outbox s) (outbox (snd (streamed E ws cs messages s)))"
  using stream_extends [of "(idle, s\<lparr>requests := requests s @ [messages]\<rparr>)" E ws cs]
  by (simp add: extends_def streamed_def)

text \<open>
  C6. Provided the failure notice can be delivered when the stream raises: when the token
  stream is over, by exhaustion or by an error raised in the middle, the reply goes
  through its end, where every outbound node of the reply has its guard released and
  carries, with role assistant, the concatenation of all segments, which is the
  concatenation of all tokens received; no guard taken by the renderer stays held.
  Nothing pushed to the transport is taken back: the outbox after the reply is the outbox
  left by the chunks, sends and edits alike, which extends the outbox left by any
  shorter run of the chunks and the outbox before the reply, followed by exactly one
  failure notice when the stream raised and by nothing otherwise.
\<close>

theorem reply_end_releases_guards_and_records_turn:
  assumes "snd (llm E messages) = Exhausted \<or> notice_delivered E"
  shows "complete E new_msg ws messages s = Inr (answer E new_msg ws messages s)
   \<and> list_all (settled (concat (response_contents (fst (answer E new_msg ws messages s))))
       (msg_nodes (snd (answer E new_msg ws messages s))))
     (response_msgs (fst (answer E new_msg ws messages s)))
   \<and> concat (response_contents (fst (answer E new_msg ws messages s)))
       = concat (map curr_content_of (fst (llm E messages)))
   \<and> (\<forall>k. held (msg_nodes (snd (answer E new_msg ws messages s))) k \<longrightarrow> held (msg_nodes s) k)
   \<and> prefix (outbox s) (outbox (snd (answer E new_msg ws messages s)))
   \<and> length (filter is_failure_notice (outbox (snd (answer E new_msg ws messages s))))
       = length (filter is_failure_notice (outbox s))
         + (case snd (llm E messages) of Exhausted \<Rightarrow> 0 | StreamError e \<Rightarrow> 1)
   \<and> length (filter is_send (outbox (snd (answer E new_msg ws messages s))))
       = length (filter is_send (outbox s))
         + length (response_msgs (fst (answer E new_msg ws messages s)))
         + (case snd (llm E messages) of Exhausted \<Rightarrow> 0 | StreamError e \<Rightarrow> 1)
   \<and> outbox (snd (answer E new_msg ws messages s))
       = outbox (snd (streamed E ws (fst (llm E messages)) messages s))
         @ (case snd (llm E messages) of
              Exhausted \<Rightarrow> []
            | StreamError e \<Rightarrow>
                [Send (next_id (snd (streamed E ws (fst (llm E messages)) messages s)))
                   (Fixed GenerationFailed)])
   \<and> (\<forall>n. prefix (outbox (snd (streamed E ws (take n (fst (llm E messages))) messages s)))
             (outbox (snd (answer E new_msg ws messages s))))
   \<and> prefix (outbox s) (outbox (snd (streamed E ws (fst (llm E messages)) messages s)))"
proof -
  note eff = answer_effects [of E new_msg ws messages s "fst (answer E new_msg ws messages s)"
      "snd (answer E new_msg ws messages s)", OF prod.collapse [symmetric]]
  have through: "complete E new_msg ws messages s = Inr (answer E new_msg ws messages s)"
    using assms by (auto simp: complete_def split: ending.splits)
  have pushed: "prefix (outbox (snd (streamed E ws (take n (fst (llm E messages))) messages s)))
      (outbox (snd (answer E new_msg ws messages s)))" for n
    using streamed_prefix [of E ws n "fst (llm E messages)" messages s]
    unfolding answer_outbox by (rule prefix_prefix)
  show ?thesis
    using through eff answer_outbox [of E new_msg ws messages s] pushed
      streamed_begin [of s E ws "fst (llm E messages)" messages]
    by simp
qed

theorem reply_end_releases_guards_and_records_turn_witness:
  "notice_delivered failing_env
   \<and> snd (llm failing_env [get_system_prompt failing_env]) = StreamError ''connection reset''
   \<and> complete failing_env long_message {} [get_system_prompt failing_env] busy_world
       = Inr (answer failing_env long_message {} [get_system_prompt failing_env] busy_world)
   \<and> response_msgs (fst (answer failing_env long_message {} [get_system_prompt failing_env] busy_world))
       = [1000]
   \<and> settled ''Hi there!''
       (msg_nodes (snd (answer failing_env long_message {} [get_system_prompt failing_env] busy_world)))
       1000
   \<and> concat (map curr_content_of (fst (llm failing_env [get_system_prompt failing_env]))) = ''Hi there!''
   \<and> held (msg_nodes (snd (answer failing_env long_message {} [get_system_prompt failing_env] busy_world))) 900
   \<and> held (msg_nodes busy_world) 900
   \<and> \<not> held (msg_nodes (snd (answer failing_env long_message {} [get_system_prompt failing_env] busy_world))) 1000
   \<and> length (filter is_failure_notice (outbox (snd (answer failing_env long_message {}
        [get_system_prompt failing_env] busy_world)))) = 1
   \<and> length (filter is_send (outbox (snd (answer failing_env long_message {}
        [get_system_prompt failing_env] busy_world)))) = 2
   \<and> outbox (snd (streamed failing_env {} (fst (llm failing_env [get_system_prompt failing_env]))
        [get_system_prompt failing_env] busy_world))
       = [Send 1000 (Rich \<lparr>description = '' o'', color = INCOMPLETE, embed_fields = {}\<rparr>),
          Edit 1000 (Rich \<lparr>description = ''Hi there o'', color = INCOMPLETE, embed_fields = {}\<rparr>)]
   \<and> outbox (snd (answer failing_env long_message {} [get_system_prompt failing_env] busy_world))
       = [Send 1000 (Rich \<lparr>description = '' o'', color = INCOMPLETE, embed_fields = {}\<rparr>),
          Edit 1000 (Rich \<lparr>description = ''Hi there o'', color = INCOMPLETE, embed_fields = {}\<rparr>),
          Send 1001 (Fixed GenerationFailed)]"
proof -
  have hyp: "snd (llm failing_env [get_system_prompt failing_env]) = Exhausted
      \<or> notice_delivered failing_env"
    by (simp add: failing_env_def sample_env_def)
  have loop: "outbox (snd (streamed failing_env {} (fst (llm failing_env [get_system_prompt failing_env]))
        [get_system_prompt failing_env] busy_world))
       = [Send 1000 (Rich \<lparr>description = '' o'', color = INCOMPLETE, embed_fields = {}\<rparr>),
          Edit 1000 (Rich \<lparr>description = ''Hi there o'', color = INCOMPLETE, embed_fields = {}\<rparr>)]"
    by (simp add: streamed_def idle_def on_chunk_def start_segment_def split_segment_def
      accumulate_def push_update_def open_message_def send_def
      curr_content_of_def MAX_MESSAGE_LENGTH_def STREAMING_INDICATOR_def EDIT_DELAY_SECONDS_def
      token_def broken_stream_def failing_env_def sample_env_def no_hooks_def busy_world_def
      fresh_world_def new_MsgNode_def Let_def)
  show ?thesis
    using reply_end_releases_guards_and_records_turn [OF hyp, of long_message "{}" busy_world] loop
    unfolding failing_run
    by (simp add: held_def settled_def new_MsgNode_def busy_world_def fresh_world_def
        failing_env_def sample_env_def broken_stream_def token_def curr_content_of_def)
qed


subsection \<open>Where the stream is split into segments\<close>

lemma segment_grows:
  assumes "registered a"
    and "response_contents (fst a) = [] \<or> response_contents (fst a) = [acc]"
    and "response_contents (fst a) = [] \<longrightarrow> acc = []"
    and "length acc + length (concat (map curr_content_of cs)) \<le> MAX_MESSAGE_LENGTH E"
    and "cs \<noteq> []"
  shows "response_contents (fst (fold (on_chunk E ws) cs a)) = [acc @ concat (map curr_content_of cs)]"
  using assms
proof (induction cs arbitrary: a acc)
  case Nil
  then show ?case by simp
next
  case (Cons c cs)
  obtain r s where a: "a = (r, s)" by (cases a)
  let ?a1 = "on_chunk E ws c a"
  have reg1: "registered ?a1" using Cons.prems(1) a by (simp add: on_chunk_registered)
  have fits: "length acc + length (curr_content_of c) \<le> MAX_MESSAGE_LENGTH E"
    using Cons.prems(4) by simp
  have rc: "response_contents r = [] \<or> response_contents r = [acc]"
    and rc0: "response_contents r = [] \<Longrightarrow> acc = []"
    using Cons.prems(2,3) a by simp_all
  have regr: "registered (r, s)" using Cons.prems(1) a by simp
  have step: "response_contents (fst ?a1) = [acc @ curr_content_of c]"
  proof (cases "response_contents r = []")
    case True
    with rc0 have "acc = []" by simp
    with True fits show ?thesis
      unfolding a on_chunk_contents [OF regr] by (simp add: Let_def)
  next
    case False
    with rc have "response_contents r = [acc]" by simp
    with fits show ?thesis
      unfolding a on_chunk_contents [OF regr] by (simp add: Let_def)
  qed
  show ?case
  proof (cases "cs = []")
    case True
    with step show ?thesis by simp
  next
    case False
    have "response_contents (fst (fold (on_chunk E ws) cs ?a1))
        = [(acc @ curr_content_of c) @ concat (map curr_content_of cs)]"
      using Cons.prems(4) by (intro Cons.IH [OF reg1 _ _ _ False]) (simp_all add: step)
    then show ?thesis by simp
  qed
qed

lemma segments_rest:
  assumes "registered a"
    and "response_contents (fst a) \<noteq> []"
    and "length (last (response_contents (fst a))) \<le> MAX_MESSAGE_LENGTH E"
    and "list_all (\<lambda>c. curr_content_of c = []) cs"
  shows "response_contents (fst (fold (on_chunk E ws) cs a)) = response_contents (fst a)"
  using assms
proof (induction cs arbitrary: a)
  case Nil
  then show ?case by simp
next
  case (Cons c cs)
  obtain r s where a: "a = (r, s)" by (cases a)
  let ?a1 = "on_chunk E ws c a"
  have reg1: "registered ?a1" using Cons.prems(1) a by (simp add: on_chunk_registered)
  have regr: "registered (r, s)" using Cons.prems(1) a by simp
  have e: "curr_content_of c = []" using Cons.prems(4) by simp
  have ne: "response_contents r \<noteq> []" and le: "length (last (response_contents r)) \<le> MAX_MESSAGE_LENGTH E"
    using Cons.prems(2,3) a by simp_all
  have step: "response_contents (fst ?a1) = response_contents (fst a)"
    unfolding a on_chunk_contents [OF regr] using ne le by (simp add: Let_def e)
  from Cons.IH [OF reg1] Cons.prems step show ?case by simp
qed

lemma empty_tokens:
  "list_all (\<lambda>x. curr_content_of x = []) cs \<Longrightarrow> concat (map curr_content_of cs) = []"
  by (auto simp: list_all_iff)

lemma split_at_last_token:
  assumes t: "curr_content_of c \<noteq> []"
    and post: "list_all (\<lambda>x. curr_content_of x = []) post"
    and total: "length (concat (map curr_content_of pre)) + length (curr_content_of c)
                  = MAX_MESSAGE_LENGTH E + 1"
    and fits: "length (curr_content_of c) \<le> MAX_MESSAGE_LENGTH E"
    and reg: "registered (idle, s)"
  shows "response_contents (fst (fold (on_chunk E ws) (pre @ c # post) (idle, s)))
       = [concat (map curr_content_of pre), curr_content_of c]"
proof -
  let ?P = "concat (map curr_content_of pre)"
  let ?a1 = "fold (on_chunk E ws) pre (idle, s)"
  from total fits have "pre \<noteq> []" by auto
  have reg1: "registered ?a1" using reg by (rule stream_registered)
  have Pfits: "length ?P \<le> MAX_MESSAGE_LENGTH E"
    using total t by (cases "curr_content_of c") simp_all
  have c1: "response_contents (fst ?a1) = [[] @ ?P]"
    using Pfits \<open>pre \<noteq> []\<close>
    by (intro segment_grows [OF reg]) (simp_all add: idle_def)
  obtain r1 s1 where a1: "?a1 = (r1, s1)" by (cases ?a1)
  let ?a2 = "on_chunk E ws c (r1, s1)"
  have reg2: "registered ?a2" using reg1 a1 by (simp add: on_chunk_registered)
  have regr1: "registered (r1, s1)" using reg1 a1 by simp
  have rc1: "response_contents r1 = [?P]" using c1 a1 by simp
  have c2: "response_contents (fst ?a2) = [?P, curr_content_of c]"
    unfolding on_chunk_contents [OF regr1] using total by (simp add: Let_def rc1)
  have "response_contents (fst (fold (on_chunk E ws) post ?a2)) = response_contents (fst ?a2)"
    using fits by (intro segments_rest [OF reg2 _ _ post]) (simp_all add: c2)
  then show ?thesis using a1 c2 by simp
qed

lemma stream_split:
  assumes "curr_content_of c \<noteq> []"
    and "list_all (\<lambda>x. curr_content_of x = []) post"
    and "length (concat (map curr_content_of (pre @ c # post))) = MAX_MESSAGE_LENGTH E + 1"
    and "length (curr_content_of c) \<le> MAX_MESSAGE_LENGTH E"
  shows "response_contents (fst (generate E ws (pre @ c # post, Exhausted) s))
       = [concat (map curr_content_of pre), curr_content_of c]
    \<and> length (response_msgs (fst (generate E ws (pre @ c # post, Exhausted) s))) = 2
    \<and> length (filter is_send (outbox (snd (generate E ws (pre @ c # post, Exhausted) s))))
        = length (filter is_send (outbox s)) + 2"
proof -
  obtain r s' where g: "generate E ws (pre @ c # post, Exhausted) s = (r, s')"
    by (cases "generate E ws (pre @ c # post, Exhausted) s")
  have empty: "concat (map curr_content_of post) = []"
    using assms(2) by (rule empty_tokens)
  have total: "length (concat (map curr_content_of pre)) + length (curr_content_of c)
                  = MAX_MESSAGE_LENGTH E + 1"
  proof -
    have "concat (map curr_content_of (pre @ c # post))
        = concat (map curr_content_of pre) @ curr_content_of c"
      by (simp add: empty)
    then have "length (concat (map curr_content_of (pre @ c # post)))
        = length (concat (map curr_content_of pre)) + length (curr_content_of c)"
      by (simp only: length_append)
    with assms(3) show ?thesis by (simp only:)
  qed
  have "response_contents (fst (fold (on_chunk E ws) (pre @ c # post) (idle, s)))
       = [concat (map curr_content_of pre), curr_content_of c]"
    by (rule split_at_last_token [OF assms(1,2) total assms(4) registered_idle])
  moreover have "fst (generate E ws (pre @ c # post, Exhausted) s)
      = fst (fold (on_chunk E ws) (pre @ c # post) (idle, s))"
    by (simp add: generate_loop split: prod.splits)
  ultimately have rc: "response_contents r = [concat (map curr_content_of pre), curr_content_of c]"
    using g by simp
  note ge = generate_effects [OF g]
  from ge(1) rc have two: "length (response_msgs r) = 2" by (simp add: registered_def)
  from ge(5) two have "length (filter is_send (outbox s')) = length (filter is_send (outbox s)) + 2"
    by simp
  with rc two show ?thesis unfolding g by simp
qed

text \<open>
  C2, as the code has it. The loop never cuts a token: a segment is closed before the
  token that would make it longer than \<open>MAX_MESSAGE_LENGTH\<close>. For a stream of
  \<open>MAX_MESSAGE_LENGTH + 1\<close> characters whose last non-empty token \<open>c\<close> has at most
  \<open>MAX_MESSAGE_LENGTH\<close> characters, exactly two outbound messages are produced: the
  first segment is the text of the tokens before \<open>c\<close>, the second is \<open>c\<close>.
\<close>

theorem stream_splits_before_last_token:
  assumes "curr_content_of c \<noteq> []"
    and "list_all (\<lambda>x. curr_content_of x = []) post"
    and "length (concat (map curr_content_of (pre @ c # post))) = MAX_MESSAGE_LENGTH E + 1"
    and "length (curr_content_of c) \<le> MAX_MESSAGE_LENGTH E"
  shows "response_contents (fst (generate E ws (pre @ c # post, Exhausted) s))
       = [concat (map curr_content_of pre), curr_content_of c]
    \<and> length (response_msgs (fst (generate E ws (pre @ c # post, Exhausted) s))) = 2
    \<and> length (filter is_send (outbox (snd (generate E ws (pre @ c # post, Exhausted) s))))
        = length (filter is_send (outbox s)) + 2"
  using assms by (rule stream_split)

lemma length_filler: "length (filler n c) = n"
  by (simp add: filler_def)

lemma filler_empty: "filler n c = [] \<longleftrightarrow> n = 0"
  by (simp add: filler_def)

theorem stream_splits_before_last_token_witness:
  "curr_content_of (token ''b'' 1) \<noteq> []
   \<and> list_all (\<lambda>x. curr_content_of x = []) [final_chunk 2]
   \<and> length (concat (map curr_content_of
         ([token (filler 4094 CHR ''a'') 0] @ token ''b'' 1 # [final_chunk 2])))
       = MAX_MESSAGE_LENGTH sample_env + 1
   \<and> length (curr_content_of (token ''b'' 1)) \<le> MAX_MESSAGE_LENGTH sample_env
   \<and> response_contents (fst (generate sample_env {}
         ([token (filler 4094 CHR ''a'') 0] @ token ''b'' 1 # [final_chunk 2], Exhausted) fresh_world))
       = [filler 4094 CHR ''a'', ''b'']
   \<and> length (response_msgs (fst (generate sample_env {}
         ([token (filler 4094 CHR ''a'') 0] @ token ''b'' 1 # [final_chunk 2], Exhausted) fresh_world)))
       = 2
   \<and> length (filter is_send (outbox (snd (generate sample_env {}
         ([token (filler 4094 CHR ''a'') 0] @ token ''b'' 1 # [final_chunk 2], Exhausted) fresh_world))))
       = 2"
  using stream_splits_before_last_token [of "token ''b'' 1" "[final_chunk 2]"
      "[token (filler 4094 CHR ''a'') 0]" sample_env "{}" fresh_world]
  by (simp add: curr_content_of_def token_def final_chunk_def length_filler
      MAX_MESSAGE_LENGTH_def STREAMING_INDICATOR_def sample_env_def fresh_world_def)

text \<open>
  C2 as stated fails: a stream of \<open>MAX_MESSAGE_LENGTH + 1\<close> characters in two tokens of
  4000 and 95 characters is split between the tokens, so the first segment has 4000
  characters, not \<open>MAX_MESSAGE_LENGTH\<close>, and the second 95, not one.
\<close>

theorem split_falls_on_token_boundary:
  "length (concat (map curr_content_of [token (filler 4000 CHR ''a'') 0, token (filler 95 CHR ''b'') 1]))
     = MAX_MESSAGE_LENGTH sample_env + 1
   \<and> response_contents (fst (generate sample_env {}
         ([token (filler 4000 CHR ''a'') 0, token (filler 95 CHR ''b'') 1], Exhausted) fresh_world))
       = [filler 4000 CHR ''a'', filler 95 CHR ''b'']
   \<and> length (filler 4000 CHR ''a'') \<noteq> MAX_MESSAGE_LENGTH sample_env
   \<and> length (filler 95 CHR ''b'') \<noteq> 1"
  using stream_split [of "token (filler 95 CHR ''b'') 1" "[]"
      "[token (filler 4000 CHR ''a'') 0]" sample_env "{}" fresh_world]
  by (simp add: curr_content_of_def token_def length_filler filler_empty
      MAX_MESSAGE_LENGTH_def STREAMING_INDICATOR_def sample_env_def)


subsection \<open>The context build\<close>

subsection \<open>The normalizer leaves the cache alone\<close>









subsection \<open>One visited message\<close>

lemma turn_at_update:
  "turn_at (s\<lparr>msg_nodes := AList.update k node ns\<rparr>) k'
     = (if k' = k then data node else turn_at (s\<lparr>msg_nodes := ns\<rparr>) k')"
  by (simp add: turn_at_def update_conv')



subsection \<open>A walk over several messages\<close>




subsection \<open>The history the walker returns\<close>



















end
